theory Spec2Isabelle
  imports Main "HOL-Library.Multiset"
begin

section \<open>Strings\<close>

text \<open>
  A Go string is a sequence of bytes holding UTF-8 text; it is modelled as a \<open>string\<close>
  (a list of 8-bit characters), one \<open>char\<close> per byte.
\<close>

definition ascii_upper :: string where
  "ascii_upper = ''ABCDEFGHIJKLMNOPQRSTUVWXYZ''"

definition ascii_lower :: string where
  "ascii_lower = ''abcdefghijklmnopqrstuvwxyz''"

definition ascii_digits :: string where
  "ascii_digits = ''0123456789''"

text \<open>The ASCII letter of the other case, every other byte unchanged.\<close>

definition lower_ascii :: "char \<Rightarrow> char" where
  "lower_ascii c = (case map_of (zip ascii_upper ascii_lower) c of Some d \<Rightarrow> d | None \<Rightarrow> c)"

definition upper_ascii :: "char \<Rightarrow> char" where
  "upper_ascii c = (case map_of (zip ascii_lower ascii_upper) c of Some d \<Rightarrow> d | None \<Rightarrow> c)"

text \<open>
  \<open>strings.ToLower\<close> maps every rune to its Unicode lower case. Two runes outside ASCII
  have an ASCII lower case: U+212A (KELVIN SIGN, bytes E2 84 AA) gives \<open>k\<close> and U+0130
  (LATIN CAPITAL LETTER I WITH DOT ABOVE, bytes C4 B0) gives \<open>i\<close>. Every other rune outside
  ASCII, and every byte that is not valid UTF-8, is mapped to bytes outside ASCII again;
  the model leaves those bytes as they are, which \<open>slugify\<close> cannot tell apart since its
  character filter removes every byte outside ASCII.
\<close>

definition kelvin_sign :: string where
  "kelvin_sign = [CHR 0xE2, CHR 0x84, CHR 0xAA]"

definition dotted_capital_i :: string where
  "dotted_capital_i = [CHR 0xC4, CHR 0xB0]"

fun ToLower :: "string \<Rightarrow> string" where
  "ToLower [] = []"
| "ToLower (c # s) =
     (if take 3 (c # s) = kelvin_sign then CHR ''k'' # ToLower (drop 2 s)
      else if take 2 (c # s) = dotted_capital_i then CHR ''i'' # ToLower (drop 1 s)
      else lower_ascii c # ToLower s)"

text \<open>\<open>strings.ReplaceAll(s, old, new)\<close> where \<open>old\<close> and \<open>new\<close> are one byte each.\<close>

definition ReplaceAll :: "string \<Rightarrow> char \<Rightarrow> char \<Rightarrow> string" where
  "ReplaceAll s old new = map (\<lambda>c. if c = old then new else c) s"

text \<open>\<open>strings.Trim(s, cutset)\<close>: all leading and trailing bytes of the cutset removed.\<close>

definition Trim :: "string \<Rightarrow> string \<Rightarrow> string" where
  "Trim s cutset =
     rev (dropWhile (\<lambda>c. c \<in> set cutset) (rev (dropWhile (\<lambda>c. c \<in> set cutset) s)))"

section \<open>The slug normalizer\<close>

text \<open>
  The regular expressions of \<open>slugify\<close>, each with its replacement, as Go's
  \<open>ReplaceAllString\<close> applies them: matches are found from left to right, each
  as long as the greedy quantifiers allow, and do not overlap.
\<close>

text \<open>The class \<open>[^a-z0-9/-]\<close> replaced by the empty string.\<close>

definition slug_chars :: string where
  "slug_chars = ascii_lower @ ascii_digits @ ''/-''"

definition strip_unsafe :: "string \<Rightarrow> string" where
  "strip_unsafe s = filter (\<lambda>c. c \<in> set slug_chars) s"

text \<open>\<open>c+\<close> replaced by \<open>c\<close>, for the patterns \<open>-+\<close> and \<open>/+\<close>.\<close>

function squeeze :: "char \<Rightarrow> string \<Rightarrow> string" where
  "squeeze c [] = []"
| "squeeze c (x # xs) =
     (if x = c then c # squeeze c (dropWhile (\<lambda>y. y = c) xs) else x # squeeze c xs)"
  by pat_completeness auto
termination
  by (relation "measure (\<lambda>(c, s). length s)")
     (auto simp: less_Suc_eq_le length_dropWhile_le)

text \<open>
  \<open>-*/+-*\<close> replaced by \<open>/\<close>. A match starts at a position exactly when the hyphens
  from there on are followed by a slash; it takes those hyphens, all slashes that follow
  and all hyphens after them.
\<close>

function hyphens_around_slash :: "string \<Rightarrow> string" where
  "hyphens_around_slash [] = []"
| "hyphens_around_slash (x # xs) =
     (case dropWhile (\<lambda>y. y = CHR ''-'') (x # xs) of
        [] \<Rightarrow> x # hyphens_around_slash xs
      | y # ys \<Rightarrow>
          if y = CHR ''/''
          then CHR ''/'' #
               hyphens_around_slash
                 (dropWhile (\<lambda>y. y = CHR ''-'') (dropWhile (\<lambda>y. y = CHR ''/'') ys))
          else x # hyphens_around_slash xs)"
  by pat_completeness auto
termination
proof (relation "measure length", goal_cases)
  case 1
  show ?case by simp
next
  case (2 x xs)
  show ?case by simp
next
  case (3 x xs y ys)
  have "length (dropWhile (\<lambda>y. y = CHR ''-'') (dropWhile (\<lambda>y. y = CHR ''/'') ys)) \<le> length ys"
    by (meson length_dropWhile_le order_trans)
  moreover have "length (y # ys) \<le> length (x # xs)"
    using length_dropWhile_le [of "\<lambda>y. y = CHR ''-''" "x # xs"] 3(1) by simp
  ultimately show ?case by simp
next
  case (4 x xs y ys)
  show ?case by simp
qed

definition slugify :: "string \<Rightarrow> string" where
  "slugify name =
     (let slug = ToLower name;
          slug = ReplaceAll slug (CHR '' '') (CHR ''-'');
          slug = ReplaceAll slug (CHR ''_'') (CHR ''-'');
          slug = strip_unsafe slug;
          slug = squeeze (CHR ''-'') slug;
          slug = squeeze (CHR ''/'') slug;
          slug = Trim slug ''-/'';
          slug = hyphens_around_slash slug
      in slug)"


section \<open>More string functions of the Go library\<close>

text \<open>
  \<open>strings.TrimSpace\<close> removes the leading and trailing white space runes: the six of
  ASCII, and U+0085, U+00A0, U+1680, U+2000 to U+200A, U+2028, U+2029, U+202F, U+205F and
  U+3000, here in their UTF-8 encoding.
\<close>

definition space_runes :: "string list" where
  "space_runes =
     [[CHR 0x09], [CHR 0x0A], [CHR 0x0B], [CHR 0x0C], [CHR 0x0D], [CHR 0x20],
      [CHR 0xC2, CHR 0x85], [CHR 0xC2, CHR 0xA0], [CHR 0xE1, CHR 0x9A, CHR 0x80],
      [CHR 0xE2, CHR 0x80, CHR 0x80], [CHR 0xE2, CHR 0x80, CHR 0x81],
      [CHR 0xE2, CHR 0x80, CHR 0x82], [CHR 0xE2, CHR 0x80, CHR 0x83],
      [CHR 0xE2, CHR 0x80, CHR 0x84], [CHR 0xE2, CHR 0x80, CHR 0x85],
      [CHR 0xE2, CHR 0x80, CHR 0x86], [CHR 0xE2, CHR 0x80, CHR 0x87],
      [CHR 0xE2, CHR 0x80, CHR 0x88], [CHR 0xE2, CHR 0x80, CHR 0x89],
      [CHR 0xE2, CHR 0x80, CHR 0x8A], [CHR 0xE2, CHR 0x80, CHR 0xA8],
      [CHR 0xE2, CHR 0x80, CHR 0xA9], [CHR 0xE2, CHR 0x80, CHR 0xAF],
      [CHR 0xE2, CHR 0x81, CHR 0x9F], [CHR 0xE3, CHR 0x80, CHR 0x80]]"

text \<open>The input without its leading runs of the given byte sequences.\<close>

function drop_leading :: "string list \<Rightarrow> string \<Rightarrow> string" where
  "drop_leading ws s =
     (case filter (\<lambda>w. w \<noteq> [] \<and> take (length w) s = w) ws of
        [] \<Rightarrow> s
      | w # _ \<Rightarrow> drop_leading ws (drop (length w) s))"
  by pat_completeness auto
termination
proof (relation "measure (\<lambda>(ws, s). length s)", goal_cases)
  case 1
  show ?case by simp
next
  case (2 ws s w rest)
  then have "w \<in> set (filter (\<lambda>w. w \<noteq> [] \<and> take (length w) s = w) ws)" by simp
  then have "w \<noteq> []" "take (length w) s = w" by auto
  then have "s \<noteq> []" by auto
  with \<open>w \<noteq> []\<close> show ?case by simp
qed

definition TrimSpace :: "string \<Rightarrow> string" where
  "TrimSpace s = rev (drop_leading (map rev space_runes) (rev (drop_leading space_runes s)))"

text \<open>\<open>strings.Split(s, sep)\<close> and \<open>strings.Join(parts, sep)\<close> for a separator of one byte.\<close>

fun Split :: "string \<Rightarrow> char \<Rightarrow> string list" where
  "Split [] sep = [[]]"
| "Split (c # s) sep =
     (if c = sep then [] # Split s sep
      else (case Split s sep of [] \<Rightarrow> [[c]] | p # ps \<Rightarrow> (c # p) # ps))"

fun Join :: "string list \<Rightarrow> char \<Rightarrow> string" where
  "Join [] sep = []"
| "Join [p] sep = p"
| "Join (p # q # ps) sep = p @ sep # Join (q # ps) sep"

definition Contains :: "string \<Rightarrow> char \<Rightarrow> bool" where
  "Contains s c = (c \<in> set s)"

definition HasPrefix :: "string \<Rightarrow> string \<Rightarrow> bool" where
  "HasPrefix s pre = (take (length pre) s = pre)"

definition TrimPrefix :: "string \<Rightarrow> string \<Rightarrow> string" where
  "TrimPrefix s pre = (if HasPrefix s pre then drop (length pre) s else s)"

text \<open>
  \<open>strings.Title\<close>: the first letter of every word in upper case, where a word starts
  after a separator. The bytes of ASCII are as in Go (letters, digits and the underscore
  are no separators, every other byte is); a byte outside ASCII is taken as no separator
  and left as it is. The slug segments that \<open>ensureParentPages\<close> passes are pieces of
  a \<open>slugify\<close> result and hold ASCII only.
\<close>

definition isSeparator :: "char \<Rightarrow> bool" where
  "isSeparator r =
     ((of_char r :: nat) \<le> 0x7F \<and> r \<notin> set (ascii_digits @ ascii_lower @ ascii_upper @ ''_''))"

fun Title_from :: "char \<Rightarrow> string \<Rightarrow> string" where
  "Title_from prev [] = []"
| "Title_from prev (r # s) = (if isSeparator prev then upper_ascii r else r) # Title_from r s"

definition Title :: "string \<Rightarrow> string" where
  "Title s = Title_from (CHR '' '') s"

section \<open>The page store\<close>

text \<open>
  The tables \<open>pages\<close>, \<open>revisions\<close>, \<open>tags\<close> and \<open>page_tags\<close> of the SQLite
  schema, each a list of rows in insertion order, with the \<open>AUTOINCREMENT\<close> counter of
  each key. Instants of time are integers. The \<open>users\<close> table is not part of the model:
  every author id is taken to be the id of a user. The operations are the sequential
  ones of one request at a time on a store that answers every statement; a statement
  fails only by breaking a constraint of the schema.
\<close>

record page =
  page_id :: int
  page_slug :: string
  page_title :: string
  page_content :: string
  page_content_html :: string
  page_author_id :: int
  page_parent_id :: "int option"
  page_is_published :: bool
  page_created_at :: int
  page_updated_at :: int
  page_published_at :: "int option"

record revision =
  rev_id :: int
  rev_page_id :: int
  rev_content :: string
  rev_author_id :: int
  rev_comment :: string
  rev_created_at :: int

record tag =
  tag_id :: int
  tag_name :: string

record db =
  pages :: "page list"
  revisions :: "revision list"
  tags :: "tag list"
  page_tags :: "(int \<times> int) list"
  page_seq :: int
  revision_seq :: int
  tag_seq :: int

datatype error =
  ErrPageNotFound
| ErrPageExists
| ErrInvalidSlug
| ErrInvalidTitle
| ErrRender
| ErrConstraint

record page_create =
  pc_slug :: string
  pc_title :: string
  pc_content :: string
  pc_parent_id :: "int option"
  pc_tags :: "string list"

record page_update =
  pu_slug :: "string option"
  pu_title :: "string option"
  pu_content :: "string option"
  pu_parent_id :: "int option"
  pu_is_published :: "bool option"
  pu_tags :: "string list option"

record slug_change =
  old_slug :: string
  new_slug :: string

record update_result =
  result_page :: page
  slug_changes :: "slug_change list"

text \<open>The collation \<open>NOCASE\<close> of SQLite compares with the 26 ASCII capitals folded.\<close>

definition nocase_eq :: "string \<Rightarrow> string \<Rightarrow> bool" where
  "nocase_eq a b = (map lower_ascii a = map lower_ascii b)"

definition GetPageByID :: "db \<Rightarrow> int \<Rightarrow> page option" where
  "GetPageByID d i = find (\<lambda>p. page_id p = i) (pages d)"

definition GetPageBySlug :: "db \<Rightarrow> string \<Rightarrow> page option" where
  "GetPageBySlug d s = find (\<lambda>p. nocase_eq (page_slug p) s) (pages d)"

text \<open>
  The constraints of table \<open>pages\<close> that a write can break: \<open>slug\<close> is \<open>UNIQUE\<close> under
  \<open>NOCASE\<close>, and \<open>parent_id\<close> references the \<open>id\<close> of a page.
\<close>

definition slug_taken :: "db \<Rightarrow> int option \<Rightarrow> string \<Rightarrow> bool" where
  "slug_taken d self s =
     (\<exists>q \<in> set (pages d). Some (page_id q) \<noteq> self \<and> nocase_eq (page_slug q) s)"

definition parent_ok :: "db \<Rightarrow> int option \<Rightarrow> bool" where
  "parent_ok d parent =
     (case parent of None \<Rightarrow> True | Some i \<Rightarrow> \<exists>q \<in> set (pages d). page_id q = i)"

text \<open>\<open>db.CreatePage\<close>: the insert, giving the page its id and time stamps.\<close>

definition DB_CreatePage :: "int \<Rightarrow> db \<Rightarrow> page \<Rightarrow> (error + page) \<times> db" where
  "DB_CreatePage now d page =
     (let page = page\<lparr>page_created_at := now, page_updated_at := now\<rparr>;
          page = (if page_is_published page then page\<lparr>page_published_at := Some now\<rparr>
                  else page)
      in if slug_taken d None (page_slug page) \<or> \<not> parent_ok d (page_parent_id page)
         then (Inl ErrConstraint, d)
         else let page = page\<lparr>page_id := page_seq d + 1\<rparr>
              in (Inr page, d\<lparr>pages := pages d @ [page], page_seq := page_seq d + 1\<rparr>))"

text \<open>\<open>db.UpdatePage\<close>: every column but the id, the author and the creation time.\<close>

definition DB_UpdatePage :: "int \<Rightarrow> db \<Rightarrow> page \<Rightarrow> error + db" where
  "DB_UpdatePage now d page =
     (if (\<exists>q \<in> set (pages d). page_id q = page_id page) \<and>
         (slug_taken d (Some (page_id page)) (page_slug page) \<or>
          \<not> parent_ok d (page_parent_id page))
      then Inl ErrConstraint
      else Inr (d\<lparr>pages :=
             map (\<lambda>q. if page_id q = page_id page
                       then q\<lparr>page_slug := page_slug page, page_title := page_title page,
                              page_content := page_content page,
                              page_content_html := page_content_html page,
                              page_parent_id := page_parent_id page,
                              page_is_published := page_is_published page,
                              page_updated_at := now,
                              page_published_at := page_published_at page\<rparr>
                       else q) (pages d)\<rparr>))"

text \<open>\<open>db.UpdatePageSlug\<close>, the statement of the rename cascade.\<close>

definition UpdatePageSlug :: "int \<Rightarrow> db \<Rightarrow> int \<Rightarrow> string \<Rightarrow> error + db" where
  "UpdatePageSlug now d pageID newSlug =
     (if (\<exists>q \<in> set (pages d). page_id q = pageID) \<and> slug_taken d (Some pageID) newSlug
      then Inl ErrConstraint
      else Inr (d\<lparr>pages :=
             map (\<lambda>q. if page_id q = pageID
                       then q\<lparr>page_slug := newSlug, page_updated_at := now\<rparr> else q)
               (pages d)\<rparr>))"

text \<open>
  \<open>db.GetAllDescendants\<close>: the recursive common table expression with \<open>UNION ALL\<close>.
  SQLite puts the rows of the initial select in a queue; as long as the queue is not
  empty it takes one row out, adds it to the result and puts the rows that the recursive
  select gives for this one row at the end of the queue. No row is ever dropped as a
  duplicate, so the query need not end: the value \<open>None\<close> stands for a run without end.
\<close>

definition children_rows :: "page list \<Rightarrow> int \<Rightarrow> (int \<times> string) list" where
  "children_rows ps i =
     map (\<lambda>p. (page_id p, page_slug p)) (filter (\<lambda>p. page_parent_id p = Some i) ps)"

partial_function (option) descendants_loop ::
  "page list \<Rightarrow> (int \<times> string) list \<Rightarrow> (int \<times> string) list \<Rightarrow> (int \<times> string) list option"
where
  "descendants_loop ps queue acc =
     (case queue of
        [] \<Rightarrow> Some acc
      | row # rest \<Rightarrow> descendants_loop ps (rest @ children_rows ps (fst row)) (acc @ [row]))"

declare descendants_loop.simps [code]

definition GetAllDescendants :: "db \<Rightarrow> int \<Rightarrow> (int \<times> string) list option" where
  "GetAllDescendants d parentID =
     descendants_loop (pages d) (children_rows (pages d) parentID) []"

text \<open>\<open>db.CreateRevision\<close>; \<open>page_id\<close> references the \<open>id\<close> of a page.\<close>

definition CreateRevision :: "int \<Rightarrow> db \<Rightarrow> revision \<Rightarrow> (error + revision) \<times> db" where
  "CreateRevision now d r =
     (if \<not> (\<exists>q \<in> set (pages d). page_id q = rev_page_id r) then (Inl ErrConstraint, d)
      else let r = r\<lparr>rev_created_at := now, rev_id := revision_seq d + 1\<rparr>
           in (Inr r, d\<lparr>revisions := revisions d @ [r],
                          revision_seq := revision_seq d + 1\<rparr>))"

text \<open>
  \<open>db.SetPageTags\<close> with \<open>getOrCreateTagTx\<close>, one transaction: the tags of the page
  are deleted and the given ones inserted. \<open>INSERT OR IGNORE\<close> skips a pair that is
  already there. An insert for a page that does not exist breaks the foreign key of
  \<open>page_tags\<close>: the transaction is rolled back, the store is as before and the error is
  returned. \<open>lower\<close> stands for \<open>strings.ToLower\<close> on the names of tags, which can hold
  any text: its case tables of Unicode are not part of the repository.
\<close>

definition getOrCreateTagTx :: "(string \<Rightarrow> string) \<Rightarrow> db \<Rightarrow> string \<Rightarrow> tag \<times> db" where
  "getOrCreateTagTx lower d name =
     (let name = lower (TrimSpace name)
      in case find (\<lambda>t. nocase_eq (tag_name t) name) (tags d) of
           Some t \<Rightarrow> (t, d)
         | None \<Rightarrow>
             let t = \<lparr>tag_id = tag_seq d + 1, tag_name = name\<rparr>
             in (t, d\<lparr>tags := tags d @ [t], tag_seq := tag_seq d + 1\<rparr>))"

fun add_page_tags :: "(string \<Rightarrow> string) \<Rightarrow> db \<Rightarrow> int \<Rightarrow> string list \<Rightarrow> error + db" where
  "add_page_tags lower d pageID [] = Inr d"
| "add_page_tags lower d pageID (name # names) =
     (let name = TrimSpace name
      in if name = [] then add_page_tags lower d pageID names
         else let (t, d) = getOrCreateTagTx lower d name
              in if \<not> (\<exists>q \<in> set (pages d). page_id q = pageID) then Inl ErrConstraint
                 else let d = (if (pageID, tag_id t) \<in> set (page_tags d) then d
                               else d\<lparr>page_tags := page_tags d @ [(pageID, tag_id t)]\<rparr>)
                      in add_page_tags lower d pageID names)"

definition SetPageTags ::
  "(string \<Rightarrow> string) \<Rightarrow> db \<Rightarrow> int \<Rightarrow> string list \<Rightarrow> (error + unit) \<times> db"
where
  "SetPageTags lower d pageID tagNames =
     (case add_page_tags lower
             (d\<lparr>page_tags := filter (\<lambda>pt. fst pt \<noteq> pageID) (page_tags d)\<rparr>) pageID tagNames of
        Inl e \<Rightarrow> (Inl e, d)
      | Inr d' \<Rightarrow> (Inr (), d'))"

section \<open>The wiki service\<close>

text \<open>
  The markdown renderer is a collaborator outside the repository's logic: a parameter
  \<open>render\<close> that gives the HTML of a text, or \<open>None\<close> when rendering fails. The
  instant \<open>now\<close> is what \<open>time.Now()\<close> gives during the call. The parameter
  \<open>lower\<close> is the lower-casing of tag names that the store applies. Every operation
  returns its outcome together with the store as it has left it, since a write that has
  been made stays made when a later step returns an error.
\<close>

type_synonym renderer = "string \<Rightarrow> string option"

text \<open>
  \<open>ensureParentPages\<close>: the loop over the indices \<open>0 .. len(parts) - 2\<close>, with the
  parent found or made so far.
\<close>

fun ensureParentPages_loop ::
  "renderer \<Rightarrow> int \<Rightarrow> int \<Rightarrow> string list \<Rightarrow> nat list \<Rightarrow> int option \<Rightarrow> db \<Rightarrow>
   (error + int option) \<times> db"
where
  "ensureParentPages_loop render now authorID parts [] parentID d = (Inr parentID, d)"
| "ensureParentPages_loop render now authorID parts (i # is) parentID d =
     (let parentSlug = Join (take (i + 1) parts) (CHR ''/'')
      in case GetPageBySlug d parentSlug of
           Some existing \<Rightarrow>
             ensureParentPages_loop render now authorID parts is (Some (page_id existing)) d
         | None \<Rightarrow>
             let title = Title (ReplaceAll (parts ! i) (CHR ''-'') (CHR '' ''));
                 contentHTML = (case render [] of Some html \<Rightarrow> html | None \<Rightarrow> []);
                 parent = \<lparr>page_id = 0, page_slug = parentSlug, page_title = title,
                           page_content = [], page_content_html = contentHTML,
                           page_author_id = authorID, page_parent_id = parentID,
                           page_is_published = True, page_created_at = 0,
                           page_updated_at = 0, page_published_at = None\<rparr>
             in case DB_CreatePage now d parent of
                  (Inl e, d') \<Rightarrow> (Inl e, d')
                | (Inr parent, d') \<Rightarrow>
                    ensureParentPages_loop render now authorID parts is
                      (Some (page_id parent)) d')"

definition ensureParentPages ::
  "renderer \<Rightarrow> int \<Rightarrow> db \<Rightarrow> int \<Rightarrow> string \<Rightarrow> (error + int option) \<times> db"
where
  "ensureParentPages render now d authorID slug =
     (let parts = Split slug (CHR ''/'')
      in if length parts \<le> 1 then (Inr None, d)
         else ensureParentPages_loop render now authorID parts [0..<length parts - 1] None d)"

definition CreatePage ::
  "(string \<Rightarrow> string) \<Rightarrow> renderer \<Rightarrow> int \<Rightarrow> db \<Rightarrow> int \<Rightarrow> page_create \<Rightarrow>
   (error + page) \<times> db"
where
  "CreatePage lower render now d authorID input =
     (let slug = TrimSpace (pc_slug input);
          slug = (if slug = [] then slugify (pc_title input) else slugify slug)
      in if slug = [] then (Inl ErrInvalidSlug, d)
         else let title = TrimSpace (pc_title input)
         in if title = [] then (Inl ErrInvalidTitle, d)
         else case GetPageBySlug d slug of
           Some existing \<Rightarrow> (Inl ErrPageExists, d)
         | None \<Rightarrow>
            (case (if Contains slug (CHR ''/'')
                   then ensureParentPages render now d authorID slug else (Inr None, d)) of
               (Inl e, d1) \<Rightarrow> (Inl e, d1)
             | (Inr parentID, d1) \<Rightarrow>
                (case render (pc_content input) of
                   None \<Rightarrow> (Inl ErrRender, d1)
                 | Some contentHTML \<Rightarrow>
                    (case DB_CreatePage now d1
                            \<lparr>page_id = 0, page_slug = slug, page_title = title,
                             page_content = pc_content input,
                             page_content_html = contentHTML,
                             page_author_id = authorID, page_parent_id = parentID,
                             page_is_published = True, page_created_at = 0,
                             page_updated_at = 0, page_published_at = None\<rparr> of
                       (Inl e, d2) \<Rightarrow> (Inl e, d2)
                     | (Inr page, d2) \<Rightarrow>
                         let d3 = snd (CreateRevision now d2
                                    \<lparr>rev_id = 0, rev_page_id = page_id page,
                                     rev_content = pc_content input,
                                     rev_author_id = authorID,
                                     rev_comment = ''Initial version'',
                                     rev_created_at = 0\<rparr>);
                             d4 = (if length (pc_tags input) > 0
                                   then snd (SetPageTags lower d3 (page_id page) (pc_tags input))
                                   else d3)
                         in (Inr page, d4)))))"

text \<open>The cascade of \<open>UpdatePage\<close>: the loop over the descendants.\<close>

fun cascade ::
  "int \<Rightarrow> string \<Rightarrow> string \<Rightarrow> (int \<times> string) list \<Rightarrow> slug_change list \<Rightarrow> db \<Rightarrow>
   (error + slug_change list) \<times> db"
where
  "cascade now oldSlug newSlug [] slugChanges d = (Inr slugChanges, d)"
| "cascade now oldSlug newSlug (desc # descendants) slugChanges d =
     (if HasPrefix (snd desc) (oldSlug @ ''/'')
      then let newChildSlug = newSlug @ TrimPrefix (snd desc) oldSlug
           in case UpdatePageSlug now d (fst desc) newChildSlug of
                Inl e \<Rightarrow> (Inl e, d)
              | Inr d' \<Rightarrow>
                  cascade now oldSlug newSlug descendants
                    (slugChanges @ [\<lparr>old_slug = snd desc, new_slug = newChildSlug\<rparr>]) d'
      else cascade now oldSlug newSlug descendants slugChanges d)"

text \<open>
  The first part of \<open>UpdatePage\<close>, the slug change: the page as held in memory and the
  slug changes of the cascade, or the error returned. \<open>None\<close> is a run in which the
  query for the descendants has no end.
\<close>

definition change_slug ::
  "renderer \<Rightarrow> int \<Rightarrow> db \<Rightarrow> page \<Rightarrow> int \<Rightarrow> int \<Rightarrow> page_update \<Rightarrow>
   ((error + page \<times> slug_change list) \<times> db) option"
where
  "change_slug render now d page pageID authorID input =
     (case pu_slug input of
        None \<Rightarrow> Some (Inr (page, []), d)
      | Some s \<Rightarrow>
          let newSlug = slugify s
          in if newSlug \<noteq> [] \<and> newSlug \<noteq> page_slug page
             then let oldSlug = page_slug page
                  in if (case GetPageBySlug d newSlug of
                           Some existing \<Rightarrow> page_id existing \<noteq> pageID
                         | None \<Rightarrow> False)
                     then Some (Inl ErrPageExists, d)
                     else (case (if Contains newSlug (CHR ''/'')
                                 then ensureParentPages render now d authorID newSlug
                                 else (Inr None, d)) of
                             (Inl e, d1) \<Rightarrow> Some (Inl e, d1)
                           | (Inr newParentID, d1) \<Rightarrow>
                               let page = page\<lparr>page_slug := newSlug,
                                               page_parent_id := newParentID\<rparr>
                               in case GetAllDescendants d1 pageID of
                                    None \<Rightarrow> None
                                  | Some descendants \<Rightarrow>
                                      (case cascade now oldSlug newSlug descendants [] d1 of
                                         (Inl e, d2) \<Rightarrow> Some (Inl e, d2)
                                       | (Inr slugChanges, d2) \<Rightarrow>
                                           Some (Inr (page, slugChanges), d2)))
             else Some (Inr (page, []), d))"

text \<open>
  The second part of \<open>UpdatePage\<close>: the revision, the fields, the write of the page
  and the tags. A revision that cannot be stored is logged and the update goes on.
\<close>

definition save_revision :: "int \<Rightarrow> db \<Rightarrow> page \<Rightarrow> int \<Rightarrow> page_update \<Rightarrow> string \<Rightarrow> db" where
  "save_revision now d page authorID input comment =
     (case pu_content input of
        None \<Rightarrow> d
      | Some c \<Rightarrow>
          if c \<noteq> page_content page
          then snd (CreateRevision now d
                      \<lparr>rev_id = 0, rev_page_id = page_id page, rev_content = page_content page,
                       rev_author_id = authorID, rev_comment = comment, rev_created_at = 0\<rparr>)
          else d)"

definition update_fields :: "renderer \<Rightarrow> int \<Rightarrow> page \<Rightarrow> page_update \<Rightarrow> error + page" where
  "update_fields render now page input =
     (case (case pu_title input of
              None \<Rightarrow> Inr page
            | Some t \<Rightarrow>
                let title = TrimSpace t
                in if title = [] then Inl ErrInvalidTitle
                   else Inr (page\<lparr>page_title := title\<rparr>)) of
        Inl e \<Rightarrow> Inl e
      | Inr page \<Rightarrow>
          (case (case pu_content input of
                   None \<Rightarrow> Inr page
                 | Some c \<Rightarrow>
                     (case render c of
                        None \<Rightarrow> Inl ErrRender
                      | Some contentHTML \<Rightarrow>
                          Inr (page\<lparr>page_content := c, page_content_html := contentHTML\<rparr>))) of
             Inl e \<Rightarrow> Inl e
           | Inr page \<Rightarrow>
               let page = (case pu_is_published input of
                             None \<Rightarrow> page
                           | Some b \<Rightarrow>
                               let page = page\<lparr>page_is_published := b\<rparr>
                               in if b \<and> page_published_at page = None
                                  then page\<lparr>page_published_at := Some now\<rparr> else page)
               in Inr (page\<lparr>page_updated_at := now\<rparr>)))"

definition UpdatePage ::
  "(string \<Rightarrow> string) \<Rightarrow> renderer \<Rightarrow> int \<Rightarrow> db \<Rightarrow> int \<Rightarrow> int \<Rightarrow> page_update \<Rightarrow> string \<Rightarrow>
   ((error + update_result) \<times> db) option"
where
  "UpdatePage lower render now d pageID authorID input comment =
     (case GetPageByID d pageID of
        None \<Rightarrow> Some (Inl ErrPageNotFound, d)
      | Some page \<Rightarrow>
         (case change_slug render now d page pageID authorID input of
            None \<Rightarrow> None
          | Some (Inl e, d1) \<Rightarrow> Some (Inl e, d1)
          | Some (Inr (page, slugChanges), d1) \<Rightarrow>
              let d2 = save_revision now d1 page authorID input comment
              in case update_fields render now page input of
                   Inl e \<Rightarrow> Some (Inl e, d2)
                 | Inr page \<Rightarrow>
                    (case DB_UpdatePage now d2 page of
                       Inl e \<Rightarrow> Some (Inl e, d2)
                     | Inr d3 \<Rightarrow>
                         let d4 = (case pu_tags input of
                                     None \<Rightarrow> d3
                                   | Some ts \<Rightarrow> snd (SetPageTags lower d3 (page_id page) ts))
                         in Some (Inr \<lparr>result_page = page, slug_changes = slugChanges\<rparr>,
                                  d4))))"

section \<open>Share links\<close>

text \<open>
  The tables \<open>share_links\<close> and \<open>share_link_access\<close>. A link belongs to a page that
  exists (its \<open>page_id\<close> references it, and the links of a deleted page are deleted
  with it), so that the join with \<open>pages\<close> in the lookup of a link loses no row.
\<close>

record share_link =
  link_id :: int
  link_token_hash :: string
  link_page_id :: int
  link_created_by :: int
  link_include_children :: bool
  link_max_views :: "int option"
  link_max_ips :: "int option"
  link_expires_at :: "int option"
  link_is_revoked :: bool
  link_view_count :: int
  link_created_at :: int

record share_link_access =
  access_id :: int
  access_share_link_id :: int
  access_ip_address :: string
  access_user_agent :: string
  access_accessed_at :: int

record share_db =
  share_links :: "share_link list"
  share_link_accesses :: "share_link_access list"
  access_seq :: int

datatype denial = Revoked | Expired | ViewLimitReached | IPLimitReached

text \<open>The text that \<open>validateShareLink\<close> stores as \<open>InvalidReason\<close>.\<close>

fun InvalidReason :: "denial \<Rightarrow> string" where
  "InvalidReason Revoked = ''This share link has been revoked''"
| "InvalidReason Expired = ''This share link has expired''"
| "InvalidReason ViewLimitReached = ''This share link has reached its view limit''"
| "InvalidReason IPLimitReached = ''This share link has reached its access limit''"

definition IsExpired :: "int \<Rightarrow> share_link \<Rightarrow> bool" where
  "IsExpired now s = (case link_expires_at s of None \<Rightarrow> False | Some t \<Rightarrow> now > t)"

definition IsViewLimitReached :: "share_link \<Rightarrow> bool" where
  "IsViewLimitReached s =
     (case link_max_views s of None \<Rightarrow> False | Some m \<Rightarrow> link_view_count s \<ge> m)"

definition IsValid :: "int \<Rightarrow> share_link \<Rightarrow> bool" where
  "IsValid now s =
     (if link_is_revoked s then False
      else if (case link_expires_at s of None \<Rightarrow> False | Some t \<Rightarrow> now > t) then False
      else if (case link_max_views s of None \<Rightarrow> False | Some m \<Rightarrow> link_view_count s \<ge> m)
      then False
      else True)"

text \<open>
  The column \<open>view_count\<close> is an \<open>INTEGER\<close>. When \<open>view_count + 1\<close> leaves the range
  of the 64-bit integers SQLite stores a \<open>REAL\<close> in its place, and stays with it; a count
  above \<open>max_int64\<close> stands for such a value. \<open>Scan\<close> cannot convert it to the \<open>int\<close>
  of the struct, so the lookup of such a link returns an error.
\<close>

definition max_int64 :: int where
  "max_int64 = 9223372036854775807"

datatype share_error = ScanError

definition GetShareLinkByToken :: "share_db \<Rightarrow> string \<Rightarrow> share_error + share_link option" where
  "GetShareLinkByToken st tokenHash =
     (case find (\<lambda>l. link_token_hash l = tokenHash) (share_links st) of
        None \<Rightarrow> Inr None
      | Some l \<Rightarrow> if link_view_count l > max_int64 then Inl ScanError else Inr (Some l))"

definition GetShareLinkUniqueIPCount :: "share_db \<Rightarrow> int \<Rightarrow> int" where
  "GetShareLinkUniqueIPCount st linkID =
     int (length (remdups (map access_ip_address
            (filter (\<lambda>a. access_share_link_id a = linkID) (share_link_accesses st)))))"

definition HasIPAccessedShareLink :: "share_db \<Rightarrow> int \<Rightarrow> string \<Rightarrow> bool" where
  "HasIPAccessedShareLink st linkID ipAddress =
     (length (filter (\<lambda>a. access_share_link_id a = linkID \<and> access_ip_address a = ipAddress)
                (share_link_accesses st)) > 0)"

text \<open>
  \<open>validateShareLink\<close> for the address \<open>ipAddress\<close> of the request, as
  \<open>sanitizeIP\<close> gives it: \<open>None\<close> when it returns true, otherwise the reason it stores.
\<close>

definition validateShareLink :: "int \<Rightarrow> share_db \<Rightarrow> share_link \<Rightarrow> string \<Rightarrow> denial option" where
  "validateShareLink now st link ipAddress =
     (if link_is_revoked link then Some Revoked
      else if IsExpired now link then Some Expired
      else if IsViewLimitReached link then Some ViewLimitReached
      else case link_max_ips link of
             None \<Rightarrow> None
           | Some maxIPs \<Rightarrow>
               let uniqueIPs = GetShareLinkUniqueIPCount st (link_id link);
                   hasAccessed = HasIPAccessedShareLink st (link_id link) ipAddress
               in if \<not> hasAccessed \<and> uniqueIPs \<ge> maxIPs then Some IPLimitReached else None)"

text \<open>
  \<open>RecordShareAccess\<close>: the row of the access log and the increment of the view count.
\<close>

definition truncateUserAgent :: "string \<Rightarrow> string" where
  "truncateUserAgent ua = (if length ua > 500 then take 500 ua else ua)"

definition RecordShareAccess :: "int \<Rightarrow> share_db \<Rightarrow> int \<Rightarrow> string \<Rightarrow> string \<Rightarrow> share_db" where
  "RecordShareAccess now st linkID ipAddress userAgent =
     st\<lparr>share_link_accesses := share_link_accesses st @
            [\<lparr>access_id = access_seq st + 1, access_share_link_id = linkID,
              access_ip_address = ipAddress, access_user_agent = truncateUserAgent userAgent,
              access_accessed_at = now\<rparr>],
        access_seq := access_seq st + 1,
        share_links := map (\<lambda>l. if link_id l = linkID
                                  then l\<lparr>link_view_count := link_view_count l + 1\<rparr> else l)
                         (share_links st)\<rparr>"

text \<open>
  One request with a share token: the link is looked up by the hash of the token and
  validated, and the access is recorded when it is valid. \<open>None\<close> is the answer for a
  token that no link has and for a lookup that fails: the request goes on without
  share access.
\<close>

definition share_request ::
  "int \<Rightarrow> share_db \<Rightarrow> string \<Rightarrow> string \<Rightarrow> string \<Rightarrow> (denial option) option \<times> share_db"
where
  "share_request now st tokenHash ipAddress userAgent =
     (case GetShareLinkByToken st tokenHash of
        Inl e \<Rightarrow> (None, st)
      | Inr None \<Rightarrow> (None, st)
      | Inr (Some link) \<Rightarrow>
          (case validateShareLink now st link ipAddress of
             Some reason \<Rightarrow> (Some (Some reason), st)
           | None \<Rightarrow>
               (Some None, RecordShareAccess now st (link_id link) ipAddress userAgent)))"

section \<open>Notions used in the statements\<close>

text \<open>The addresses in the access log of a link.\<close>

definition logged_ips :: "share_db \<Rightarrow> int \<Rightarrow> string set" where
  "logged_ips st linkID =
     access_ip_address ` set (filter (\<lambda>a. access_share_link_id a = linkID) (share_link_accesses st))"

text \<open>The letters and digits of a slug, and the two separators.\<close>

definition alnum :: "char \<Rightarrow> bool" where
  "alnum c = (c \<in> set (ascii_lower @ ascii_digits))"

definition sep :: "char \<Rightarrow> bool" where
  "sep c = (c = CHR ''-'' \<or> c = CHR ''/'')"

abbreviation (input) isH :: "char \<Rightarrow> bool" where
  "isH \<equiv> (\<lambda>y. y = CHR ''-'')"

abbreviation (input) isS :: "char \<Rightarrow> bool" where
  "isS \<equiv> (\<lambda>y. y = CHR ''/'')"

text \<open>The input of \<open>slugify\<close> up to the trimming of its ends.\<close>

definition pre_trim :: "string \<Rightarrow> string" where
  "pre_trim s = squeeze (CHR ''/'') (squeeze (CHR ''-'') (strip_unsafe
      (ReplaceAll (ReplaceAll (ToLower s) (CHR '' '') (CHR ''-'')) (CHR ''_'') (CHR ''-''))))"

text \<open>
  The bytes of ASCII, and the characters that the first steps of \<open>slugify\<close> keep or turn
  into a kept one: the ASCII letters and digits, the space, the underscore, the hyphen
  and the slash. \<open>norm_char\<close> is what the lower-casing and the two replacements of
  \<open>slugify\<close> make of one ASCII character.
\<close>

definition ascii :: "char \<Rightarrow> bool" where
  "ascii c = (of_char c < (128::nat))"

definition kept :: "char \<Rightarrow> bool" where
  "kept c = (c \<in> set (ascii_upper @ ascii_lower @ ascii_digits @ '' _-/''))"

definition norm_char :: "char \<Rightarrow> char" where
  "norm_char c =
     (let c = lower_ascii c in if c = CHR '' '' \<or> c = CHR ''_'' then CHR ''-'' else c)"

text \<open>
  A word of ASCII letters and digits; a run of spaces, underscores and hyphens; a run
  that also has slashes, all of them side by side. \<open>weave\<close> is a first word followed by
  runs and words in turn, and \<open>joined\<close> the lower-cased words with one hyphen for a run
  without slash and one slash for a run with slashes.
\<close>

definition plain_word :: "string \<Rightarrow> bool" where
  "plain_word w = (w \<noteq> [] \<and> set w \<subseteq> set (ascii_upper @ ascii_lower @ ascii_digits))"

definition hyphen_run :: "string \<Rightarrow> bool" where
  "hyphen_run r = (r \<noteq> [] \<and> set r \<subseteq> set '' _-'')"

definition slash_run :: "string \<Rightarrow> bool" where
  "slash_run r =
     (set r \<subseteq> set '' _-/'' \<and> CHR ''/'' \<in> set r \<and>
      CHR ''/'' \<notin> set (dropWhile (\<lambda>c. c = CHR ''/'') (dropWhile (\<lambda>c. c \<noteq> CHR ''/'') r)))"

fun weave :: "string \<Rightarrow> (string \<times> string) list \<Rightarrow> string" where
  "weave w [] = w"
| "weave w ((r, v) # ps) = w @ r @ weave v ps"

fun joined :: "string \<Rightarrow> (string \<times> string) list \<Rightarrow> string" where
  "joined w [] = map lower_ascii w"
| "joined w ((r, v) # ps) =
     map lower_ascii w @ (if CHR ''/'' \<in> set r then ''/'' else ''-'') @ joined v ps"

section \<open>Example stores\<close>

text \<open>
  A share link limited to two views, one limited to one address and one limited to two
  addresses.
\<close>

definition two_views_link :: share_link where
  "two_views_link =
     \<lparr>link_id = 1, link_token_hash = ''h1'', link_page_id = 1, link_created_by = 1,
      link_include_children = False, link_max_views = Some 2, link_max_ips = None,
      link_expires_at = None, link_is_revoked = False, link_view_count = 0,
      link_created_at = 0\<rparr>"

definition one_ip_link :: share_link where
  "one_ip_link =
     \<lparr>link_id = 2, link_token_hash = ''h2'', link_page_id = 1, link_created_by = 1,
      link_include_children = False, link_max_views = None, link_max_ips = Some 1,
      link_expires_at = Some 100, link_is_revoked = False, link_view_count = 0,
      link_created_at = 0\<rparr>"

definition two_ips_link :: share_link where
  "two_ips_link =
     \<lparr>link_id = 3, link_token_hash = ''h3'', link_page_id = 1, link_created_by = 1,
      link_include_children = False, link_max_views = None, link_max_ips = Some 2,
      link_expires_at = None, link_is_revoked = False, link_view_count = 0,
      link_created_at = 0\<rparr>"

definition example_share_db :: share_db where
  "example_share_db =
     \<lparr>share_links = [two_views_link, one_ip_link, two_ips_link], share_link_accesses = [],
      access_seq = 0\<rparr>"

section \<open>Notions for the statements about the store\<close>

text \<open>The slug that \<open>CreatePage\<close> gives the new page.\<close>

definition create_slug :: "page_create \<Rightarrow> string" where
  "create_slug input =
     (let slug = TrimSpace (pc_slug input)
      in if slug = [] then slugify (pc_title input) else slugify slug)"

text \<open>The revisions of a page.\<close>

definition revisions_of :: "db \<Rightarrow> int \<Rightarrow> revision list" where
  "revisions_of d i = filter (\<lambda>v. rev_page_id v = i) (revisions d)"

text \<open>
  What \<open>ensureParentPages\<close> inserts: a published page without content, and the
  placeholder of a given slug in full.
\<close>

definition placeholder :: "int \<Rightarrow> int \<Rightarrow> page \<Rightarrow> bool" where
  "placeholder now authorID p \<longleftrightarrow>
     page_content p = [] \<and> page_is_published p \<and> page_author_id p = authorID \<and>
     page_created_at p = now \<and> page_published_at p = Some now"


text \<open>A renderer that succeeds, an empty store, and a store with two pages.\<close>

definition plain_render :: renderer where
  "plain_render s = Some s"

definition empty_db :: db where
  "empty_db = \<lparr>pages = [], revisions = [], tags = [], page_tags = [],
                page_seq = 0, revision_seq = 0, tag_seq = 0\<rparr>"

definition linux_db :: db where
  "linux_db =
     \<lparr>pages =
        [\<lparr>page_id = 1, page_slug = ''linux'', page_title = ''Linux'', page_content = ''L'',
          page_content_html = ''L'', page_author_id = 7, page_parent_id = None,
          page_is_published = True, page_created_at = 10, page_updated_at = 10,
          page_published_at = Some 10\<rparr>,
         \<lparr>page_id = 2, page_slug = ''linux/ubuntu'', page_title = ''Ubuntu'',
          page_content = ''U'', page_content_html = ''U'', page_author_id = 7,
          page_parent_id = Some 1, page_is_published = True, page_created_at = 11,
          page_updated_at = 11, page_published_at = Some 11\<rparr>],
      revisions =
        [\<lparr>rev_id = 1, rev_page_id = 1, rev_content = ''L'', rev_author_id = 7,
          rev_comment = ''Initial version'', rev_created_at = 10\<rparr>,
         \<lparr>rev_id = 2, rev_page_id = 2, rev_content = ''U'', rev_author_id = 7,
          rev_comment = ''Initial version'', rev_created_at = 11\<rparr>],
      tags = [], page_tags = [], page_seq = 2, revision_seq = 2, tag_seq = 0\<rparr>"

definition new_page :: "string \<Rightarrow> string \<Rightarrow> string \<Rightarrow> page_create" where
  "new_page s t c = \<lparr>pc_slug = s, pc_title = t, pc_content = c, pc_parent_id = None, pc_tags = []\<rparr>"

section \<open>Notions for the statements about descendants\<close>

text \<open>
  The parent links of a store as a relation between ids, child first, and the links
  that lead to a page: those whose parent end is the page or one of its descendants.
\<close>

definition parent_rel :: "page list \<Rightarrow> (int \<times> int) set" where
  "parent_rel ps =
     set (concat (map (\<lambda>p. case page_parent_id p of None \<Rightarrow> [] | Some i \<Rightarrow> [(page_id p, i)]) ps))"

definition links_below :: "page list \<Rightarrow> int \<Rightarrow> (int \<times> int) set" where
  "links_below ps i = {(c, p) \<in> parent_rel ps. (p, i) \<in> (parent_rel ps)\<^sup>*}"

text \<open>The rows below the rows of a queue.\<close>

definition row_rel :: "page list \<Rightarrow> ((int \<times> string) \<times> (int \<times> string)) set" where
  "row_rel ps = {(x, y). x \<in> set (children_rows ps (fst y))}"

definition below :: "page list \<Rightarrow> (int \<times> string) list \<Rightarrow> (int \<times> string) set" where
  "below ps q = {x. \<exists>y\<in>set q. (x, y) \<in> (row_rel ps)\<^sup>*}"

text \<open>
  A page \<open>a\<close>, and the store after its slug has been changed to \<open>a/b/c\<close>: the
  placeholder \<open>a/b\<close> is made a child of the page, which becomes a child of the placeholder.
\<close>

definition rename :: "string \<Rightarrow> page_update" where
  "rename s = \<lparr>pu_slug = Some s, pu_title = None, pu_content = None, pu_parent_id = None,
               pu_is_published = None, pu_tags = None\<rparr>"

definition cyclic_db :: db where
  "cyclic_db =
     \<lparr>pages =
        [\<lparr>page_id = 1, page_slug = ''a/b/c'', page_title = ''A'', page_content = ''x'',
          page_content_html = ''x'', page_author_id = 7, page_parent_id = Some 2,
          page_is_published = True, page_created_at = 10, page_updated_at = 11,
          page_published_at = Some 10\<rparr>,
         \<lparr>page_id = 2, page_slug = ''a/b/c/b'', page_title = ''B'', page_content = [],
          page_content_html = [], page_author_id = 7, page_parent_id = Some 1,
          page_is_published = True, page_created_at = 11, page_updated_at = 11,
          page_published_at = Some 11\<rparr>],
      revisions =
        [\<lparr>rev_id = 1, rev_page_id = 1, rev_content = ''x'', rev_author_id = 7,
          rev_comment = ''Initial version'', rev_created_at = 10\<rparr>],
      tags = [], page_tags = [], page_seq = 2, revision_seq = 1, tag_seq = 0\<rparr>"

section \<open>Notions for the statements about updates\<close>



text \<open>
  An update of the content alone, and the store \<open>linux_db\<close> after the content of page 1
  has been changed to \<open>M\<close> and then back to \<open>L\<close>.
\<close>

definition edit :: "string \<Rightarrow> page_update" where
  "edit c = \<lparr>pu_slug = None, pu_title = None, pu_content = Some c, pu_parent_id = None,
             pu_is_published = None, pu_tags = None\<rparr>"

definition edited_db :: db where
  "edited_db = snd (the (UpdatePage ToLower plain_render 12 linux_db 1 7 (edit ''M'') ''first''))"

definition restored_db :: db where
  "restored_db = snd (the (UpdatePage ToLower plain_render 13 edited_db 1 7 (edit ''L'') ''back''))"

text \<open>
  A store in which the pages \<open>a/x\<close> and \<open>a/y\<close> are children of the page \<open>a\<close> and a
  page \<open>b/y\<close> stands alone, and an update that moves a page and gives it a blank title.
\<close>

definition stub :: "int \<Rightarrow> string \<Rightarrow> int option \<Rightarrow> page" where
  "stub i s parent =
     \<lparr>page_id = i, page_slug = s, page_title = ''T'', page_content = [],
      page_content_html = [], page_author_id = 7, page_parent_id = parent,
      page_is_published = True, page_created_at = 10, page_updated_at = 10,
      page_published_at = Some 10\<rparr>"

definition siblings_db :: db where
  "siblings_db =
     \<lparr>pages = [stub 1 ''a'' None, stub 2 ''a/x'' (Some 1), stub 3 ''a/y'' (Some 1),
               stub 4 ''b/y'' None],
      revisions = [], tags = [], page_tags = [], page_seq = 4, revision_seq = 0, tag_seq = 0\<rparr>"

definition blank_title_move :: page_update where
  "blank_title_move = (rename ''commands/linux'')\<lparr>pu_title := Some '' '', pu_content := Some ''M''\<rparr>"

text \<open>
  The store in which the cascade of an update starts: the store of the call with the
  placeholder pages that the new slug needs. The slug of a page after the update: the
  new slug for the page itself, the new slug in place of the old one for a descendant
  whose slug starts with the old slug and a slash, the slug as it is for any other page.
\<close>

definition cascade_start :: "renderer \<Rightarrow> int \<Rightarrow> db \<Rightarrow> int \<Rightarrow> string \<Rightarrow> db" where
  "cascade_start render now d authorID newSlug =
     (if Contains newSlug (CHR ''/'')
      then snd (ensureParentPages render now d authorID newSlug) else d)"



section \<open>Properties of the slug normalizer\<close>



lemma alnum_not_sep: "alnum c \<Longrightarrow> \<not> sep c"
  by (auto simp: alnum_def sep_def ascii_lower_def ascii_digits_def)

lemma slug_chars_cases: "c \<in> set slug_chars \<longleftrightarrow> alnum c \<or> sep c"
  by (auto simp: alnum_def sep_def slug_chars_def)

text \<open>Facts about suffixes.\<close>
lemma successively_dropWhile: "successively R xs \<Longrightarrow> successively R (dropWhile P xs)"
  by (metis successively_append_iff takeWhile_dropWhile_id)

lemma last_dropWhile:
  "xs \<noteq> [] \<Longrightarrow> \<not> P (last xs) \<Longrightarrow> dropWhile P xs \<noteq> [] \<and> last (dropWhile P xs) = last xs"
  by (induction xs) (auto split: if_splits)

lemma filter_dropWhile_other:
  "(\<And>x. Q x \<Longrightarrow> \<not> P x) \<Longrightarrow> filter P (dropWhile Q xs) = filter P xs"
  by (induction xs) auto

text \<open>The replacement of runs.\<close>
lemma set_squeeze: "set (squeeze c s) \<subseteq> set s"
  by (induction c s rule: squeeze.induct) (auto dest: set_dropWhileD)

lemma squeeze_Nil_iff [simp]: "squeeze c s = [] \<longleftrightarrow> s = []"
  by (cases s) auto

lemma hd_squeeze: "hd (squeeze c s) = hd s"
  by (cases s) auto

lemma filter_squeeze: "\<not> P c \<Longrightarrow> filter P (squeeze c s) = filter P s"
proof (induction c s rule: squeeze.induct)
  case (1 c)
  show ?case by simp
next
  case (2 c x xs)
  have "filter P (dropWhile (\<lambda>y. y = c) xs) = filter P xs"
    using 2(3) by (intro filter_dropWhile_other) auto
  with 2 show ?case by auto
qed

lemma successively_squeeze_same:
  "successively (\<lambda>a b. \<not> (a = c \<and> b = c)) (squeeze c s)"
proof (induction c s rule: squeeze.induct)
  case (1 c)
  show ?case by simp
next
  case (2 c x xs)
  show ?case
  proof (cases "x = c")
    case True
    let ?r = "dropWhile (\<lambda>y. y = c) xs"
    have "?r \<noteq> [] \<Longrightarrow> hd ?r \<noteq> c" using hd_dropWhile [of "\<lambda>y. y = c" xs] by simp
    with True 2 show ?thesis by (auto simp: successively_Cons hd_squeeze)
  next
    case False
    with 2 show ?thesis by (auto simp: successively_Cons hd_squeeze)
  qed
qed

lemma successively_squeeze_other:
  "successively (\<lambda>a b. \<not> (a = d \<and> b = d)) s \<Longrightarrow> c \<noteq> d \<Longrightarrow>
   successively (\<lambda>a b. \<not> (a = d \<and> b = d)) (squeeze c s)"
proof (induction c s rule: squeeze.induct)
  case (1 c)
  show ?case by simp
next
  case (2 c x xs)
  from "2.prems" have xs: "successively (\<lambda>a b. \<not> (a = d \<and> b = d)) xs"
    and hd: "xs \<noteq> [] \<Longrightarrow> \<not> (x = d \<and> hd xs = d)"
    by (auto simp: successively_Cons)
  show ?case
  proof (cases "x = c")
    case True
    with 2 xs show ?thesis
      by (auto simp: successively_Cons successively_dropWhile)
  next
    case False
    with 2 xs hd show ?thesis by (auto simp: successively_Cons hd_squeeze)
  qed
qed

text \<open>Trimming.\<close>
lemma set_Trim: "set (Trim s cs) \<subseteq> set s"
  unfolding Trim_def by (auto dest!: set_dropWhileD)

lemma filter_Trim: "(\<And>x. x \<in> set cs \<Longrightarrow> \<not> P x) \<Longrightarrow> filter P (Trim s cs) = filter P s"
  unfolding Trim_def by (simp add: filter_dropWhile_other rev_filter [symmetric])

lemma successively_Trim:
  "successively R s \<Longrightarrow> successively R (Trim s cs)"
  unfolding Trim_def by (simp add: successively_dropWhile)

lemma Trim_ends:
  assumes "Trim s cs \<noteq> []"
  shows "hd (Trim s cs) \<notin> set cs" and "last (Trim s cs) \<notin> set cs"
proof -
  let ?P = "\<lambda>c. c \<in> set cs"
  let ?a = "dropWhile ?P s"
  let ?b = "dropWhile ?P (rev ?a)"
  have b: "?b \<noteq> []" using assms by (simp add: Trim_def)
  have a: "?a \<noteq> []"
  proof
    assume "?a = []"
    then have "?b = []" by (simp only: rev.simps dropWhile.simps)
    with b show False ..
  qed
  have "\<not> ?P (hd ?b)" using b by (rule hd_dropWhile)
  then show "last (Trim s cs) \<notin> set cs" using b by (simp add: Trim_def last_rev)
  have "\<not> ?P (hd ?a)" using a by (rule hd_dropWhile)
  then have "\<not> ?P (last (rev ?a))" using a by (simp add: last_rev)
  with a have "last ?b = last (rev ?a)" by (simp add: last_dropWhile)
  then have "hd (rev ?b) = hd ?a" using a b by (simp add: hd_rev last_rev)
  with \<open>\<not> ?P (hd ?a)\<close> show "hd (Trim s cs) \<notin> set cs" by (simp add: Trim_def)
qed

text \<open>The last replacement of \<open>slugify\<close>.\<close>


lemma has_Nil_iff [simp]: "hyphens_around_slash s = [] \<longleftrightarrow> s = []"
  by (cases s) (auto split: list.splits simp del: dropWhile.simps)

lemma has_step:
  "hyphens_around_slash (x # xs) =
     (if \<exists>ys. dropWhile isH (x # xs) = CHR ''/'' # ys
      then CHR ''/'' # hyphens_around_slash (dropWhile isH (dropWhile isS (tl (dropWhile isH (x # xs)))))
      else x # hyphens_around_slash xs)"
proof (cases "dropWhile isH (x # xs)")
  case Nil
  have "hyphens_around_slash (x # xs) = x # hyphens_around_slash xs"
    by (simp only: hyphens_around_slash.simps Nil list.case)
  then show ?thesis by (simp only: Nil) simp
next
  case (Cons y ys)
  have "hyphens_around_slash (x # xs) =
      (if y = CHR ''/'' then CHR ''/'' # hyphens_around_slash (dropWhile isH (dropWhile isS ys))
       else x # hyphens_around_slash xs)"
    by (simp only: hyphens_around_slash.simps Cons list.case)
  then show ?thesis by (simp only: Cons) simp
qed

declare hyphens_around_slash.simps(2) [simp del]

lemma has_induct [case_names Nil match nomatch]:
  assumes "P []"
    and "\<And>x xs ys. dropWhile isH (x # xs) = CHR ''/'' # ys \<Longrightarrow>
           hyphens_around_slash (x # xs) = CHR ''/'' # hyphens_around_slash (dropWhile isH (dropWhile isS ys)) \<Longrightarrow>
           P (dropWhile isH (dropWhile isS ys)) \<Longrightarrow> P (x # xs)"
    and "\<And>x xs. \<forall>ys. dropWhile isH (x # xs) \<noteq> CHR ''/'' # ys \<Longrightarrow>
           hyphens_around_slash (x # xs) = x # hyphens_around_slash xs \<Longrightarrow> P xs \<Longrightarrow> P (x # xs)"
  shows "P s"
proof (induction s rule: hyphens_around_slash.induct)
  case 1
  show ?case by (rule assms(1))
next
  case (2 x xs)
  show ?case
  proof (cases "\<exists>ys. dropWhile isH (x # xs) = CHR ''/'' # ys")
    case True
    then obtain ys where ys: "dropWhile isH (x # xs) = CHR ''/'' # ys" by blast
    have "P (dropWhile isH (dropWhile isS ys))" using ys by (intro 2(2)) auto
    moreover have "hyphens_around_slash (x # xs) = CHR ''/'' # hyphens_around_slash (dropWhile isH (dropWhile isS ys))"
      using ys by (simp only: has_step) simp
    ultimately show ?thesis using ys by (intro assms(2))
  next
    case False
    then have h: "hyphens_around_slash (x # xs) = x # hyphens_around_slash xs"
      by (simp only: has_step if_False)
    have "P xs"
    proof (cases "dropWhile isH (x # xs)")
      case Nil
      then show ?thesis by (rule 2(1))
    next
      case (Cons y ys)
      with False have "y \<noteq> CHR ''/''" by auto
      with Cons show ?thesis by (intro 2(3))
    qed
    with False h show ?thesis by (intro assms(3)) auto
  qed
qed

lemma set_has: "set (hyphens_around_slash s) \<subseteq> insert (CHR ''/'') (set s)"
proof (induction s rule: has_induct)
  case Nil
  show ?case by simp
next
  case (match x xs ys)
  have "set (dropWhile isH (dropWhile isS ys)) \<subseteq> set ys"
    by (auto dest!: set_dropWhileD)
  moreover have "set ys \<subseteq> set (x # xs)"
  proof -
    have "set (dropWhile isH (x # xs)) \<subseteq> set (x # xs)"
      by (auto dest: set_dropWhileD simp del: dropWhile.simps)
    then have "set (CHR ''/'' # ys) \<subseteq> set (x # xs)" by (simp only: match(1))
    then show ?thesis by auto
  qed
  ultimately show ?case using match(2,3) by auto
next
  case (nomatch x xs)
  then show ?case by auto
qed

lemma filter_has:
  assumes "\<not> P (CHR ''-'')" "\<not> P (CHR ''/'')"
  shows "filter P (hyphens_around_slash s) = filter P s"
proof (induction s rule: has_induct)
  case Nil
  show ?case by simp
next
  case (match x xs ys)
  have "filter P (x # xs) = filter P (dropWhile isH (x # xs))"
    using assms(1) by (intro filter_dropWhile_other [symmetric]) auto
  also have "\<dots> = filter P ys" using match(1) assms(2) by simp
  also have "\<dots> = filter P (dropWhile isS ys)"
    using assms(2) by (intro filter_dropWhile_other [symmetric]) auto
  also have "\<dots> = filter P (dropWhile isH (dropWhile isS ys))"
    using assms(1) by (intro filter_dropWhile_other [symmetric]) auto
  finally show ?case using match(2,3) assms(2) by simp
next
  case (nomatch x xs)
  then show ?case by simp
qed

lemma hd_has:
  "s \<noteq> [] \<Longrightarrow> hd (hyphens_around_slash s) =
     (if \<exists>ys. dropWhile isH s = CHR ''/'' # ys then CHR ''/'' else hd s)"
  by (cases s) (simp_all add: has_step del: dropWhile.simps)

text \<open>No hyphen is left next to a slash.\<close>
lemma has_no_hyphen_slash:
  "successively (\<lambda>a b. \<not> (a = CHR ''-'' \<and> b = CHR ''/'') \<and> \<not> (a = CHR ''/'' \<and> b = CHR ''-''))
     (hyphens_around_slash s)"
proof (induction s rule: has_induct)
  case Nil
  show ?case by simp
next
  case (match x xs ys)
  let ?r = "dropWhile isH (dropWhile isS ys)"
  have "?r \<noteq> [] \<Longrightarrow> hd ?r \<noteq> CHR ''-''"
    using hd_dropWhile [of isH "dropWhile isS ys"] by blast
  moreover have "?r \<noteq> [] \<Longrightarrow> \<exists>zs. dropWhile isH ?r = CHR ''/'' # zs \<Longrightarrow> hd ?r = CHR ''/''"
    by (simp only: dropWhile_idem) auto
  ultimately have "?r \<noteq> [] \<Longrightarrow> hd (hyphens_around_slash ?r) \<noteq> CHR ''-''"
    by (auto simp: hd_has)
  with match(2,3) show ?case by (auto simp: successively_Cons)
next
  case (nomatch x xs)
  have 1: "x \<noteq> CHR ''/''" using nomatch(1) by auto
  have 2: "x = CHR ''-'' \<Longrightarrow> \<forall>ys. dropWhile isH xs \<noteq> CHR ''/'' # ys" using nomatch(1) by auto
  have "xs \<noteq> [] \<Longrightarrow> x = CHR ''-'' \<Longrightarrow> hd (hyphens_around_slash xs) \<noteq> CHR ''/''"
  proof -
    assume a: "xs \<noteq> []" "x = CHR ''-''"
    with 2 have "hd (hyphens_around_slash xs) = hd xs" by (simp add: hd_has)
    moreover have "hd xs \<noteq> CHR ''/''" using 2 a by (cases xs) auto
    ultimately show ?thesis by simp
  qed
  with 1 nomatch(2,3) show ?case by (auto simp: successively_Cons)
qed

lemma has_no_double_hyphen:
  "successively (\<lambda>a b. \<not> (a = CHR ''-'' \<and> b = CHR ''-'')) s \<Longrightarrow>
   successively (\<lambda>a b. \<not> (a = CHR ''-'' \<and> b = CHR ''-'')) (hyphens_around_slash s)"
proof (induction s rule: has_induct)
  case Nil
  show ?case by simp
next
  case (match x xs ys)
  let ?R = "\<lambda>a b. \<not> (a = CHR ''-'' \<and> b = CHR ''-'')"
  have "successively ?R (dropWhile isH (x # xs))" using match.prems by (rule successively_dropWhile)
  then have "successively ?R (CHR ''/'' # ys)" by (simp only: match(1))
  then have "successively ?R ys" by (auto simp: successively_Cons)
  then have "successively ?R (dropWhile isH (dropWhile isS ys))"
    by (intro successively_dropWhile)
  with match show ?case by (auto simp: successively_Cons)
next
  case (nomatch x xs)
  let ?R = "\<lambda>a b. \<not> (a = CHR ''-'' \<and> b = CHR ''-'')"
  from nomatch.prems have xs: "successively ?R xs" and h: "xs \<noteq> [] \<Longrightarrow> ?R x (hd xs)"
    by (auto simp: successively_Cons)
  have "xs \<noteq> [] \<Longrightarrow> x = CHR ''-'' \<Longrightarrow> hd (hyphens_around_slash xs) \<noteq> CHR ''-''"
    using h by (auto simp: hd_has)
  with nomatch xs show ?case by (auto simp: successively_Cons)
qed

lemma has_ends:
  assumes "s \<noteq> []" "hd s \<noteq> CHR ''-''" "hd s \<noteq> CHR ''/''" "last s \<noteq> CHR ''-''" "last s \<noteq> CHR ''/''"
  shows "hd (hyphens_around_slash s) = hd s" and "last (hyphens_around_slash s) = last s"
proof -
  show "hd (hyphens_around_slash s) = hd s"
    using assms(1-3) by (cases s) (auto simp: hd_has)
  have "s \<noteq> [] \<Longrightarrow> last s \<noteq> CHR ''-'' \<Longrightarrow> last s \<noteq> CHR ''/'' \<Longrightarrow> last (hyphens_around_slash s) = last s"
  proof (induction s rule: has_induct)
    case Nil
    then show ?case by simp
  next
    case (match x xs ys)
    have a: "dropWhile isH (x # xs) \<noteq> [] \<and> last (dropWhile isH (x # xs)) = last (x # xs)"
      using match.prems by (intro last_dropWhile) auto
    then have "last (CHR ''/'' # ys) = last (x # xs)" by (simp only: match(1))
    then have ys: "ys \<noteq> []" "last ys = last (x # xs)"
      using match.prems(2,3) by (auto split: if_splits)
    have b: "dropWhile isS ys \<noteq> [] \<and> last (dropWhile isS ys) = last ys"
      using ys match.prems(3) last_dropWhile [of ys isS] by simp
    have c: "dropWhile isH (dropWhile isS ys) \<noteq> [] \<and>
        last (dropWhile isH (dropWhile isS ys)) = last (dropWhile isS ys)"
      using b ys match.prems(2) last_dropWhile [of "dropWhile isS ys" isH] by simp
    have "last (hyphens_around_slash (dropWhile isH (dropWhile isS ys))) =
        last (dropWhile isH (dropWhile isS ys))"
      using c b ys match.prems(2,3) by (intro match.IH) simp_all
    moreover have "hyphens_around_slash (dropWhile isH (dropWhile isS ys)) \<noteq> []"
      using c by (simp only: has_Nil_iff) simp
    ultimately show ?case using b c ys by (simp only: match(2) last.simps if_False)
  next
    case (nomatch x xs)
    show ?case
    proof (cases "xs = []")
      case True
      then show ?thesis by (simp add: hyphens_around_slash.simps(2))
    next
      case False
      then have "last (hyphens_around_slash xs) = last xs"
        using nomatch.prems by (intro nomatch.IH) simp_all
      moreover have "hyphens_around_slash xs \<noteq> []" using False by simp
      ultimately show ?thesis using False by (simp add: nomatch(2))
    qed
  qed
  with assms show "last (hyphens_around_slash s) = last s" by simp
qed

text \<open>The whole of \<open>slugify\<close>.\<close>

lemma alnum_simps [simp]: "\<not> alnum (CHR ''-'')" "\<not> alnum (CHR ''/'')" "\<not> alnum (CHR '' '')" "\<not> alnum (CHR ''_'')"
  by (simp_all add: alnum_def ascii_lower_def ascii_digits_def)

lemma filter_ReplaceAll: "\<not> P old \<Longrightarrow> \<not> P new \<Longrightarrow> filter P (ReplaceAll s old new) = filter P s"
  by (induction s) (auto simp: ReplaceAll_def)

lemma filter_strip_unsafe: "filter alnum (strip_unsafe s) = filter alnum s"
  by (induction s) (auto simp: strip_unsafe_def slug_chars_cases)


lemma slugify_pre_trim: "slugify s = hyphens_around_slash (Trim (pre_trim s) ''-/'')"
  by (simp add: slugify_def pre_trim_def)

lemma set_pre_trim: "set (pre_trim s) \<subseteq> set slug_chars"
proof -
  have "set (strip_unsafe t) \<subseteq> set slug_chars" for t by (auto simp: strip_unsafe_def)
  then show ?thesis unfolding pre_trim_def using set_squeeze by blast
qed

lemma filter_pre_trim: "filter alnum (pre_trim s) = filter alnum (ToLower s)"
  by (simp add: pre_trim_def filter_squeeze filter_strip_unsafe filter_ReplaceAll)

lemma pre_trim_no_double_hyphen:
  "successively (\<lambda>a b. \<not> (a = CHR ''-'' \<and> b = CHR ''-'')) (pre_trim s)"
  unfolding pre_trim_def
  by (intro successively_squeeze_other successively_squeeze_same) simp

lemma set_slugify: "set (slugify s) \<subseteq> set slug_chars"
proof -
  have "set (Trim (pre_trim s) ''-/'') \<subseteq> set slug_chars"
    using set_Trim set_pre_trim by blast
  moreover have "CHR ''/'' \<in> set slug_chars" by (simp add: slug_chars_def)
  ultimately show ?thesis unfolding slugify_pre_trim using set_has by blast
qed

lemma filter_slugify: "filter alnum (slugify s) = filter alnum (ToLower s)"
proof -
  have "filter alnum (Trim (pre_trim s) ''-/'') = filter alnum (pre_trim s)"
    by (rule filter_Trim) auto
  then show ?thesis by (simp add: slugify_pre_trim filter_has filter_pre_trim)
qed

lemma slugify_no_double_hyphen:
  "successively (\<lambda>a b. \<not> (a = CHR ''-'' \<and> b = CHR ''-'')) (slugify s)"
  unfolding slugify_pre_trim
  by (intro has_no_double_hyphen successively_Trim pre_trim_no_double_hyphen)

lemma slugify_ends:
  assumes "slugify s \<noteq> []"
  shows "alnum (hd (slugify s))" and "alnum (last (slugify s))"
proof -
  let ?t = "Trim (pre_trim s) ''-/''"
  have t: "?t \<noteq> []" using assms by (simp add: slugify_pre_trim)
  have "set ?t \<subseteq> set slug_chars" using set_Trim set_pre_trim by blast
  then have in_sc: "hd ?t \<in> set slug_chars" "last ?t \<in> set slug_chars" using t by auto
  have "hd ?t \<notin> set ''-/''" "last ?t \<notin> set ''-/''" using Trim_ends [OF t] by blast+
  then have e: "hd ?t \<noteq> CHR ''-''" "hd ?t \<noteq> CHR ''/''" "last ?t \<noteq> CHR ''-''" "last ?t \<noteq> CHR ''/''"
    by auto
  with in_sc have "alnum (hd ?t)" "alnum (last ?t)" by (auto simp: slug_chars_cases sep_def)
  then show "alnum (hd (slugify s))" "alnum (last (slugify s))"
    using has_ends [OF t e] by (simp_all add: slugify_pre_trim)
qed

lemma slugify_empty_iff: "slugify s = [] \<longleftrightarrow> filter alnum (ToLower s) = []"
proof
  assume "slugify s = []"
  then show "filter alnum (ToLower s) = []" using filter_slugify [of s] by simp
next
  assume a: "filter alnum (ToLower s) = []"
  show "slugify s = []"
  proof (rule ccontr)
    assume n: "slugify s \<noteq> []"
    then have "alnum (hd (slugify s))" by (rule slugify_ends)
    moreover have "hd (slugify s) \<in> set (slugify s)" using n by simp
    ultimately have "filter alnum (slugify s) \<noteq> []" by (auto simp: filter_empty_conv)
    with a show False by (simp add: filter_slugify)
  qed
qed

text \<open>Words separated by a run of spaces, underscores and hyphens.\<close>
lemma plain_chars_aux:
  "list_all (\<lambda>c. lower_ascii c = c \<and> c \<noteq> CHR 0xE2 \<and> c \<noteq> CHR 0xC4) (ascii_lower @ ascii_digits @ '' _-/'')"
  by code_simp

lemma plain_chars:
  "alnum c \<or> c \<in> {CHR '' '', CHR ''_'', CHR ''-'', CHR ''/''} \<Longrightarrow>
   lower_ascii c = c \<and> c \<noteq> CHR 0xE2 \<and> c \<noteq> CHR 0xC4"
  using plain_chars_aux unfolding list_all_iff alnum_def by auto

lemma ToLower_id:
  "\<forall>c\<in>set s. lower_ascii c = c \<and> c \<noteq> CHR 0xE2 \<and> c \<noteq> CHR 0xC4 \<Longrightarrow> ToLower s = s"
  by (induction s rule: ToLower.induct) (auto simp: kelvin_sign_def dotted_capital_i_def)

lemma squeeze_append_notin: "c \<notin> set u \<Longrightarrow> squeeze c (u @ t) = u @ squeeze c t"
  by (induction u) auto

lemma squeeze_notin: "c \<notin> set u \<Longrightarrow> squeeze c u = u"
  using squeeze_append_notin [of c u "[]"] by simp

lemma dropWhile_replicate_append:
  "hd (v @ [d]) \<noteq> c \<Longrightarrow> dropWhile (\<lambda>y. y = c) (replicate n c @ v) = v"
  by (induction n) (auto simp: dropWhile_eq_self_iff hd_append split: if_splits)

lemma squeeze_run: "hd (v @ [d]) \<noteq> c \<Longrightarrow> squeeze c (replicate (Suc n) c @ v) = c # squeeze c v"
  using dropWhile_replicate_append [of v d c n] by simp

lemma has_notin: "CHR ''/'' \<notin> set s \<Longrightarrow> hyphens_around_slash s = s"
proof (induction s rule: has_induct)
  case Nil
  show ?case by simp
next
  case (match x xs ys)
  have "CHR ''/'' \<in> set (dropWhile isH (x # xs))" by (simp only: match(1)) simp
  then have "CHR ''/'' \<in> set (x # xs)" by (rule set_dropWhileD)
  with match.prems show ?case by simp
next
  case (nomatch x xs)
  then show ?case by simp
qed

lemma Trim_id: "s \<noteq> [] \<Longrightarrow> hd s \<notin> set cs \<Longrightarrow> last s \<notin> set cs \<Longrightarrow> Trim s cs = s"
proof -
  assume a: "s \<noteq> []" "hd s \<notin> set cs" "last s \<notin> set cs"
  have "dropWhile (\<lambda>c. c \<in> set cs) s = s" using a by (simp add: dropWhile_eq_self_iff)
  moreover have "dropWhile (\<lambda>c. c \<in> set cs) (rev s) = rev s"
    using a by (simp add: dropWhile_eq_self_iff hd_rev)
  ultimately show ?thesis by (simp add: Trim_def)
qed

lemma slugify_words:
  assumes u: "u \<noteq> []" "\<forall>c\<in>set u. alnum c" and v: "v \<noteq> []" "\<forall>c\<in>set v. alnum c"
    and w: "w \<noteq> []" "set w \<subseteq> {CHR '' '', CHR ''_'', CHR ''-''}"
  shows "slugify (u @ w @ v) = u @ ''-'' @ v"
proof -
  have "\<forall>c\<in>set (u @ w @ v). lower_ascii c = c \<and> c \<noteq> CHR 0xE2 \<and> c \<noteq> CHR 0xC4"
  proof
    fix c assume "c \<in> set (u @ w @ v)"
    then have "alnum c \<or> c \<in> {CHR '' '', CHR ''_'', CHR ''-'', CHR ''/''}" using u v w by auto
    then show "lower_ascii c = c \<and> c \<noteq> CHR 0xE2 \<and> c \<noteq> CHR 0xC4" by (rule plain_chars)
  qed
  then have 1: "ToLower (u @ w @ v) = u @ w @ v" by (rule ToLower_id)
  have mu: "map f u = u" if "\<And>c. alnum c \<Longrightarrow> f c = c" for f
    using u(2) that by (induction u) auto
  have mv: "map f v = v" if "\<And>c. alnum c \<Longrightarrow> f c = c" for f
    using v(2) that by (induction v) auto
  have mw: "map (\<lambda>c. if c = CHR ''_'' then CHR ''-'' else c) (map (\<lambda>c. if c = CHR '' '' then CHR ''-'' else c) w)
      = replicate (length w) (CHR ''-'')"
    using w(2) by (induction w) auto
  have 2: "ReplaceAll (ReplaceAll (u @ w @ v) (CHR '' '') (CHR ''-'')) (CHR ''_'') (CHR ''-'')
      = u @ replicate (length w) (CHR ''-'') @ v"
  proof -
    have a: "map (\<lambda>c. if c = CHR '' '' then CHR ''-'' else c) u = u"
      by (rule mu) auto
    have b: "map (\<lambda>c. if c = CHR ''_'' then CHR ''-'' else c) u = u"
      by (rule mu) auto
    have c: "map (\<lambda>c. if c = CHR '' '' then CHR ''-'' else c) v = v"
      by (rule mv) auto
    have d: "map (\<lambda>c. if c = CHR ''_'' then CHR ''-'' else c) v = v"
      by (rule mv) auto
    show ?thesis unfolding ReplaceAll_def map_append a b c d mw ..
  qed
  have fu: "filter (\<lambda>c. c \<in> set slug_chars) u = u" using u(2) by (auto simp: slug_chars_cases)
  have fv: "filter (\<lambda>c. c \<in> set slug_chars) v = v" using v(2) by (auto simp: slug_chars_cases)
  have 3: "strip_unsafe (u @ replicate (length w) (CHR ''-'') @ v) = u @ replicate (length w) (CHR ''-'') @ v"
  proof -
    have "CHR ''-'' \<in> set slug_chars" by (simp add: slug_chars_def)
    then have "filter (\<lambda>c. c \<in> set slug_chars) (replicate (length w) (CHR ''-'')) = replicate (length w) (CHR ''-'')"
      by simp
    then show ?thesis unfolding strip_unsafe_def filter_append fu fv by simp
  qed
  have hu: "CHR ''-'' \<notin> set u" "CHR ''/'' \<notin> set u" using u(2) by auto
  have hv: "CHR ''-'' \<notin> set v" "CHR ''/'' \<notin> set v" using v(2) by auto
  obtain n where n: "length w = Suc n" using w(1) by (cases w) auto
  have "hd (v @ [d]) \<noteq> CHR ''-''" for d using v hv by (cases v) auto
  then have 4: "squeeze (CHR ''-'') (u @ replicate (length w) (CHR ''-'') @ v) = u @ ''-'' @ v"
    unfolding n using hu hv by (simp add: squeeze_append_notin squeeze_run squeeze_notin del: replicate.simps)
  have 5: "squeeze (CHR ''/'') (u @ ''-'' @ v) = u @ ''-'' @ v"
    using hu hv by (intro squeeze_notin) auto
  have "hd (u @ ''-'' @ v) = hd u" "last (u @ ''-'' @ v) = last v" using u v by auto
  moreover have "alnum (hd u)" "alnum (last v)" using u v by auto
  ultimately have 6: "Trim (u @ ''-'' @ v) ''-/'' = u @ ''-'' @ v"
    by (intro Trim_id) auto
  have 7: "hyphens_around_slash (u @ ''-'' @ v) = u @ ''-'' @ v"
    using hu hv by (intro has_notin) auto
  show ?thesis
    unfolding slugify_def Let_def 1 2 3 4 5 6 7 ..
qed

text \<open>The first three steps, character by character.\<close>

lemma ascii_not_lead: "ascii c \<Longrightarrow> c \<noteq> CHR 0xE2 \<and> c \<noteq> CHR 0xC4"
  by (auto simp: ascii_def)

lemma ToLower_map:
  "\<forall>c\<in>set s. c \<noteq> CHR 0xE2 \<and> c \<noteq> CHR 0xC4 \<Longrightarrow> ToLower s = map lower_ascii s"
  by (induction s rule: ToLower.induct) (auto simp: kelvin_sign_def dotted_capital_i_def)

lemma prep_ascii:
  assumes "\<forall>c\<in>set s. ascii c"
  shows "strip_unsafe (ReplaceAll (ReplaceAll (ToLower s) (CHR '' '') (CHR ''-'')) (CHR ''_'') (CHR ''-''))
    = filter (\<lambda>c. c \<in> set slug_chars) (map norm_char s)"
proof -
  have "ToLower s = map lower_ascii s" using assms by (intro ToLower_map) (auto dest: ascii_not_lead)
  moreover have "map (\<lambda>c. if c = CHR ''_'' then CHR ''-'' else c)
      (map (\<lambda>c. if c = CHR '' '' then CHR ''-'' else c) (map lower_ascii s)) = map norm_char s"
    by (simp add: norm_char_def Let_def)
  ultimately show ?thesis by (simp only: strip_unsafe_def ReplaceAll_def)
qed


lemma lower_ascii_other: "c \<notin> set ascii_upper \<Longrightarrow> lower_ascii c = c"
proof -
  assume "c \<notin> set ascii_upper"
  then have "map_of (zip ascii_upper ascii_lower) c = None"
    by (simp add: map_of_eq_None_iff ascii_upper_def ascii_lower_def)
  then show ?thesis by (simp add: lower_ascii_def)
qed

lemma lower_ascii_upper_aux:
  "list_all (\<lambda>c. lower_ascii c \<in> set ascii_lower) ascii_upper"
  by code_simp

lemma lower_ascii_upper: "c \<in> set ascii_upper \<Longrightarrow> lower_ascii c \<in> set ascii_lower"
  using lower_ascii_upper_aux by (simp add: list_all_iff)

lemma slug_chars_plain_aux:
  "list_all (\<lambda>c. c \<notin> set ascii_upper \<and> c \<noteq> CHR '' '' \<and> c \<noteq> CHR ''_'') slug_chars"
  by code_simp

lemma slug_chars_plain:
  "c \<in> set slug_chars \<Longrightarrow> c \<notin> set ascii_upper \<and> c \<noteq> CHR '' '' \<and> c \<noteq> CHR ''_''"
  using slug_chars_plain_aux by (simp add: list_all_iff)

lemma norm_char_kept: "norm_char c \<in> set slug_chars \<longleftrightarrow> kept c"
proof (cases "c \<in> set ascii_upper")
  case True
  then have l: "lower_ascii c \<in> set ascii_lower" by (rule lower_ascii_upper)
  then have "lower_ascii c \<in> set slug_chars" by (simp add: slug_chars_def)
  with slug_chars_plain [OF this] have "norm_char c \<in> set slug_chars"
    by (simp add: norm_char_def Let_def)
  moreover have "kept c" using True by (simp add: kept_def)
  ultimately show ?thesis by simp
next
  case False
  then have l: "lower_ascii c = c" by (rule lower_ascii_other)
  show ?thesis
  proof (cases "c = CHR '' '' \<or> c = CHR ''_''")
    case True
    then have "norm_char c = CHR ''-''" using l by (auto simp: norm_char_def Let_def)
    moreover have "CHR ''-'' \<in> set slug_chars" by (simp add: slug_chars_def)
    moreover have "kept c" using True by (auto simp: kept_def)
    ultimately show ?thesis by simp
  next
    case n: False
    then have "norm_char c = c" using l by (simp add: norm_char_def Let_def)
    moreover have "kept c \<longleftrightarrow> c \<in> set slug_chars"
      using False n by (auto simp: kept_def slug_chars_def)
    ultimately show ?thesis by simp
  qed
qed

lemma prep_filter_kept:
  "filter (\<lambda>c. c \<in> set slug_chars) (map norm_char (filter kept s)) =
   filter (\<lambda>c. c \<in> set slug_chars) (map norm_char s)"
  by (induction s) (simp_all add: norm_char_kept)

lemma slugify_ascii:
  assumes "\<forall>c\<in>set s. ascii c"
  shows "slugify s = hyphens_around_slash (Trim (squeeze (CHR ''/'') (squeeze (CHR ''-'')
      (filter (\<lambda>c. c \<in> set slug_chars) (map norm_char s)))) ''-/'')"
  unfolding slugify_def Let_def prep_ascii [OF assms] ..

lemma slugify_kept:
  assumes "\<forall>c\<in>set s. ascii c"
  shows "slugify s = slugify (filter kept s)"
proof -
  have "\<forall>c\<in>set (filter kept s). ascii c" using assms by simp
  from slugify_ascii [OF this] slugify_ascii [OF assms] show ?thesis
    by (simp only: prep_filter_kept)
qed

text \<open>Words and runs, one after the other.\<close>

lemma hom_weave:
  assumes "\<And>a b. h (a @ b) = h a @ h b"
  shows "h (weave w ps) = weave (h w) (map (\<lambda>p. (h (fst p), h (snd p))) ps)"
  by (induction ps arbitrary: w) (auto simp: assms)

lemma stage_weave:
  assumes word: "\<And>u t. Wd u \<Longrightarrow> f (u @ t) = u @ f t"
    and run: "\<And>r v t. Rn r \<Longrightarrow> Wd v \<Longrightarrow> f (r @ v @ t) = g r @ f (v @ t)"
    and "Wd w" "\<forall>p\<in>set ps. Rn (fst p) \<and> Wd (snd p)"
  shows "f (weave w ps @ t) = weave w (map (\<lambda>p. (g (fst p), snd p)) ps) @ f t"
  using assms(3,4)
proof (induction ps arbitrary: w)
  case Nil
  then show ?case by (simp add: word)
next
  case (Cons p ps)
  obtain r v where p: "p = (r, v)" by (cases p)
  from Cons.prems p have rv: "Rn r" "Wd v" and rest: "\<forall>p\<in>set ps. Rn (fst p) \<and> Wd (snd p)" by auto
  have "f (weave w (p # ps) @ t) = f (w @ (r @ weave v ps @ t))" by (simp add: p)
  also have "\<dots> = w @ f (r @ weave v ps @ t)" using Cons.prems(1) by (rule word)
  also have "weave v ps @ t = v @ (drop (length v) (weave v ps) @ t)"
    by (cases ps) auto
  also have "f (r @ v @ (drop (length v) (weave v ps) @ t)) =
      g r @ f (v @ (drop (length v) (weave v ps) @ t))" using rv by (rule run)
  also have "v @ (drop (length v) (weave v ps) @ t) = weave v ps @ t" by (cases ps) auto
  also have "f (weave v ps @ t) = weave v (map (\<lambda>p. (g (fst p), snd p)) ps) @ f t"
    using rv(2) rest by (rule Cons.IH)
  finally show ?case by (simp add: p)
qed

lemma weave_ends:
  assumes "w \<noteq> []" "\<forall>c\<in>set w. Q c" "\<forall>p\<in>set ps. snd p \<noteq> [] \<and> (\<forall>c\<in>set (snd p). Q c)"
  shows "weave w ps \<noteq> [] \<and> Q (hd (weave w ps)) \<and> Q (last (weave w ps))"
  using assms
proof (induction ps arbitrary: w)
  case Nil
  then show ?case by simp
next
  case (Cons p ps)
  obtain r v where p: "p = (r, v)" by (cases p)
  from Cons.prems p have "weave v ps \<noteq> [] \<and> Q (hd (weave v ps)) \<and> Q (last (weave v ps))"
    by (intro Cons.IH) auto
  with Cons.prems(1,2) show ?case by (simp add: p hd_append)
qed

text \<open>The replacement of runs, between words.\<close>

lemma dropWhile_append_stop:
  "\<not> P x \<Longrightarrow> dropWhile P (ys @ x # t) = dropWhile P ys @ x # t"
  by (induction ys) auto

lemma squeeze_split: "x \<noteq> c \<Longrightarrow> squeeze c (r @ x # t) = squeeze c r @ squeeze c (x # t)"
proof (induction c r rule: squeeze.induct)
  case (1 c)
  show ?case by simp
next
  case (2 c y ys)
  show ?case
  proof (cases "y = c")
    case True
    have "dropWhile (\<lambda>y. y = c) (ys @ x # t) = dropWhile (\<lambda>y. y = c) ys @ x # t"
      using 2(3) by (intro dropWhile_append_stop) simp
    with True 2 show ?thesis by simp
  next
    case False
    with 2 show ?thesis by simp
  qed
qed

lemma squeeze_weave:
  assumes "w \<noteq> []" "c \<notin> set w" "\<forall>p\<in>set ps. snd p \<noteq> [] \<and> c \<notin> set (snd p)"
  shows "squeeze c (weave w ps @ t) = weave w (map (\<lambda>p. (squeeze c (fst p), snd p)) ps) @ squeeze c t"
proof (rule stage_weave [where Wd = "\<lambda>u. u \<noteq> [] \<and> c \<notin> set u" and Rn = "\<lambda>r. True"])
  fix u t assume "u \<noteq> [] \<and> c \<notin> set u"
  then show "squeeze c (u @ t) = u @ squeeze c t" by (simp add: squeeze_append_notin)
next
  fix r v t assume "True" and v: "v \<noteq> [] \<and> c \<notin> set v"
  then obtain x xs where x: "v = x # xs" "x \<noteq> c" by (cases v) auto
  then show "squeeze c (r @ v @ t) = squeeze c r @ squeeze c (v @ t)"
    using squeeze_split [of x c r "xs @ t"] by simp
next
  show "w \<noteq> [] \<and> c \<notin> set w" using assms by simp
  show "\<forall>p\<in>set ps. True \<and> snd p \<noteq> [] \<and> c \<notin> set (snd p)" using assms by simp
qed

lemma Trim_strip:
  assumes "set pre \<subseteq> set cs" "set post \<subseteq> set cs" "core \<noteq> []" "hd core \<notin> set cs"
    "last core \<notin> set cs"
  shows "Trim (pre @ core @ post) cs = core"
proof -
  let ?P = "\<lambda>c. c \<in> set cs"
  obtain x xs where c: "core = x # xs" using assms(3) by (cases core) auto
  have 1: "dropWhile ?P (pre @ core @ post) = core @ post"
    using assms(1,4) c by (simp add: dropWhile_append2 subset_iff)
  obtain y ys where r: "rev core = y # ys" using assms(3) by (cases "rev core") auto
  then have "y = last core" using assms(3) by (metis hd_rev list.sel(1))
  with assms(5) have "\<not> ?P y" by simp
  moreover have "\<forall>c\<in>set (rev post). ?P c" using assms(2) by auto
  ultimately have "dropWhile ?P (rev post @ y # ys) = y # ys"
    by (simp add: dropWhile_append_stop dropWhile_eq_Nil_conv)
  then have 2: "dropWhile ?P (rev post @ rev core) = rev core" by (simp only: r)
  show ?thesis by (simp add: Trim_def 1 2)
qed

text \<open>What the first steps make of a word and of a run.\<close>

lemma word_chars_aux:
  "list_all (\<lambda>c. ascii c \<and> norm_char c = lower_ascii c \<and> alnum (lower_ascii c))
     (ascii_upper @ ascii_lower @ ascii_digits)"
  by code_simp

lemma run_chars_aux:
  "list_all (\<lambda>c. ascii c \<and> norm_char c = (if c = CHR ''/'' then CHR ''/'' else CHR ''-'')) '' _-/''"
  by code_simp

lemma alnum_slug: "alnum c \<Longrightarrow> c \<in> set slug_chars"
  by (simp add: slug_chars_cases)

lemma prep_word:
  assumes "plain_word w"
  shows "filter (\<lambda>c. c \<in> set slug_chars) (map norm_char w) = map lower_ascii w"
    and "map lower_ascii w \<noteq> []" and "\<forall>c\<in>set (map lower_ascii w). alnum c"
    and "\<forall>c\<in>set w. ascii c"
proof -
  have a: "\<forall>c\<in>set w. ascii c \<and> norm_char c = lower_ascii c \<and> alnum (lower_ascii c)"
    using assms word_chars_aux unfolding plain_word_def list_all_iff by blast
  then show "\<forall>c\<in>set w. ascii c" by blast
  show "map lower_ascii w \<noteq> []" using assms by (simp add: plain_word_def)
  show "\<forall>c\<in>set (map lower_ascii w). alnum c" using a by simp
  have m: "map norm_char w = map lower_ascii w" using a by simp
  have f: "filter (\<lambda>c. c \<in> set slug_chars) (map lower_ascii w) = map lower_ascii w"
    using a by (simp add: alnum_slug)
  show "filter (\<lambda>c. c \<in> set slug_chars) (map norm_char w) = map lower_ascii w"
    by (simp only: m f)
qed

lemma prep_run:
  assumes "set r \<subseteq> set '' _-/''"
  shows "filter (\<lambda>c. c \<in> set slug_chars) (map norm_char r) =
      map (\<lambda>c. if c = CHR ''/'' then CHR ''/'' else CHR ''-'') r"
    and "\<forall>c\<in>set r. ascii c"
proof -
  have a: "\<forall>c\<in>set r. ascii c \<and> norm_char c = (if c = CHR ''/'' then CHR ''/'' else CHR ''-'')"
    using assms run_chars_aux unfolding list_all_iff by blast
  then show "\<forall>c\<in>set r. ascii c" by blast
  have m: "map norm_char r = map (\<lambda>c. if c = CHR ''/'' then CHR ''/'' else CHR ''-'') r"
    using a by simp
  have f: "filter (\<lambda>c. c \<in> set slug_chars)
      (map (\<lambda>c. if c = CHR ''/'' then CHR ''/'' else CHR ''-'') r) =
      map (\<lambda>c. if c = CHR ''/'' then CHR ''/'' else CHR ''-'') r"
    by (induction r) (simp_all add: slug_chars_def)
  show "filter (\<lambda>c. c \<in> set slug_chars) (map norm_char r) =
      map (\<lambda>c. if c = CHR ''/'' then CHR ''/'' else CHR ''-'') r" by (simp only: m f)
qed

lemma map_const: "\<forall>c\<in>set xs. f c = k \<Longrightarrow> map f xs = replicate (length xs) k"
  by (induction xs) auto

lemma squeeze_replicate: "squeeze c (replicate (Suc n) c) = [c]"
  by simp

lemma run_hyphen:
  assumes "hyphen_run r"
  shows "squeeze (CHR ''/'') (squeeze (CHR ''-'')
      (filter (\<lambda>c. c \<in> set slug_chars) (map norm_char r))) = ''-''"
proof -
  from assms have r: "r \<noteq> []" "set r \<subseteq> set '' _-''" by (simp_all add: hyphen_run_def)
  then have "set r \<subseteq> set '' _-/''" by auto
  from prep_run(1) [OF this] have "filter (\<lambda>c. c \<in> set slug_chars) (map norm_char r) =
      map (\<lambda>c. if c = CHR ''/'' then CHR ''/'' else CHR ''-'') r" .
  also have "\<dots> = replicate (length r) (CHR ''-'')" using r(2) by (intro map_const) auto
  finally have p: "filter (\<lambda>c. c \<in> set slug_chars) (map norm_char r) = replicate (length r) (CHR ''-'')" .
  obtain n where "length r = Suc n" using r(1) by (cases r) auto
  then show ?thesis unfolding p by (simp del: replicate.simps(2) add: squeeze_replicate)
qed

lemma slash_run_form:
  assumes "slash_run r"
  shows "\<exists>a n b. map (\<lambda>c. if c = CHR ''/'' then CHR ''/'' else CHR ''-'') r =
      replicate a (CHR ''-'') @ replicate (Suc n) (CHR ''/'') @ replicate b (CHR ''-'')"
proof -
  let ?Q = "\<lambda>c. if c = CHR ''/'' then CHR ''/'' else CHR ''-''"
  let ?h1 = "takeWhile (\<lambda>c. c \<noteq> CHR ''/'') r" and ?rest = "dropWhile (\<lambda>c. c \<noteq> CHR ''/'') r"
  let ?s = "takeWhile (\<lambda>c. c = CHR ''/'') ?rest" and ?h2 = "dropWhile (\<lambda>c. c = CHR ''/'') ?rest"
  from assms have in_r: "CHR ''/'' \<in> set r" and h2: "CHR ''/'' \<notin> set ?h2"
    by (simp_all add: slash_run_def)
  have r: "r = ?h1 @ ?s @ ?h2" by simp
  have "?rest \<noteq> []" using in_r by (simp add: dropWhile_eq_Nil_conv)
  moreover from this have "hd ?rest = CHR ''/''" using hd_dropWhile [of "\<lambda>c. c \<noteq> CHR ''/''" r] by simp
  ultimately have "?s \<noteq> []" by (cases ?rest) auto
  then obtain n where n: "length ?s = Suc n" by (cases ?s) auto
  have 1: "map ?Q ?h1 = replicate (length ?h1) (CHR ''-'')"
    by (intro map_const) (auto dest: set_takeWhileD)
  have 2: "map ?Q ?s = replicate (length ?s) (CHR ''/'')"
    by (intro map_const) (auto dest: set_takeWhileD)
  have 3: "map ?Q ?h2 = replicate (length ?h2) (CHR ''-'')"
    using h2 by (intro map_const) auto
  have "map ?Q r = map ?Q ?h1 @ map ?Q ?s @ map ?Q ?h2" by (subst r) (simp only: map_append)
  then show ?thesis unfolding 1 2 3 n by blast
qed

lemma squeeze_slash_run:
  "squeeze (CHR ''/'') (squeeze (CHR ''-'')
     (replicate a (CHR ''-'') @ replicate (Suc n) (CHR ''/'') @ replicate b (CHR ''-''))) =
   (if a = 0 then [] else ''-'') @ ''/'' @ (if b = 0 then [] else ''-'')"
proof -
  let ?S = "replicate (Suc n) (CHR ''/'')"
  have b: "squeeze (CHR ''-'') (replicate b (CHR ''-'')) = (if b = 0 then [] else ''-'')"
    by (cases b) (simp_all del: replicate.simps(2) add: squeeze_replicate)
  have s: "squeeze (CHR ''-'') (?S @ replicate b (CHR ''-'')) = ?S @ (if b = 0 then [] else ''-'')"
    by (subst squeeze_append_notin) (simp_all only: b, simp)
  have a: "squeeze (CHR ''-'') (replicate a (CHR ''-'') @ ?S @ replicate b (CHR ''-'')) =
      (if a = 0 then [] else ''-'') @ ?S @ (if b = 0 then [] else ''-'')"
  proof (cases a)
    case 0
    then show ?thesis using s by (simp del: replicate.simps(2))
  next
    case (Suc k)
    have "hd ((?S @ replicate b (CHR ''-'')) @ [d]) \<noteq> CHR ''-''" for d by simp
    from squeeze_run [OF this, of k] show ?thesis unfolding Suc s by simp
  qed
  have t: "squeeze (CHR ''/'') (?S @ (if b = 0 then [] else ''-'')) = ''/'' @ (if b = 0 then [] else ''-'')"
  proof -
    have "hd ((if b = 0 then [] else ''-'') @ [CHR ''-'']) \<noteq> CHR ''/''" by simp
    from squeeze_run [OF this, of n] show ?thesis by (simp del: replicate.simps(2))
  qed
  show ?thesis unfolding a
  proof (cases a)
    case 0
    then show "squeeze (CHR ''/'') ((if a = 0 then [] else ''-'') @ ?S @ (if b = 0 then [] else ''-'')) =
        (if a = 0 then [] else ''-'') @ ''/'' @ (if b = 0 then [] else ''-'')"
      using t by simp
  next
    case (Suc k)
    then show "squeeze (CHR ''/'') ((if a = 0 then [] else ''-'') @ ?S @ (if b = 0 then [] else ''-'')) =
        (if a = 0 then [] else ''-'') @ ''/'' @ (if b = 0 then [] else ''-'')"
      using t by (simp del: replicate.simps(2))
  qed
qed

lemma run_slash:
  assumes "slash_run r"
  shows "squeeze (CHR ''/'') (squeeze (CHR ''-'')
      (filter (\<lambda>c. c \<in> set slug_chars) (map norm_char r))) \<in> {''/'', ''-/'', ''/-'', ''-/-''}"
proof -
  from assms have "set r \<subseteq> set '' _-/''" by (simp add: slash_run_def)
  from prep_run(1) [OF this] slash_run_form [OF assms] obtain a n b where
    "filter (\<lambda>c. c \<in> set slug_chars) (map norm_char r) =
      replicate a (CHR ''-'') @ replicate (Suc n) (CHR ''/'') @ replicate b (CHR ''-'')"
    by auto
  then show ?thesis by (simp only: squeeze_slash_run) simp
qed

text \<open>The last replacement, between words.\<close>

lemma has_word:
  assumes "CHR ''-'' \<notin> set u" "CHR ''/'' \<notin> set u"
  shows "hyphens_around_slash (u @ t) = u @ hyphens_around_slash t"
  using assms
proof (induction u)
  case Nil
  show ?case by simp
next
  case (Cons x xs)
  then have x: "x \<noteq> CHR ''-''" "x \<noteq> CHR ''/''" by auto
  then have "hyphens_around_slash (x # (xs @ t)) = x # hyphens_around_slash (xs @ t)"
    by (subst has_step) simp
  with Cons show ?case by simp
qed

lemma has_run:
  assumes "r \<in> {''-'', ''/'', ''-/'', ''/-'', ''-/-''}" "x \<noteq> CHR ''-''" "x \<noteq> CHR ''/''"
  shows "hyphens_around_slash (r @ x # t) =
      (if CHR ''/'' \<in> set r then ''/'' else ''-'') @ hyphens_around_slash (x # t)"
proof -
  consider "r = ''-''" | "r = ''/''" | "r = ''-/''" | "r = ''/-''" | "r = ''-/-''"
    using assms(1) by blast
  then show ?thesis
  proof cases
    case 1
    then show ?thesis using assms(2,3) by (simp add: has_step [of "CHR ''-''"])
  next
    case 2
    then show ?thesis using assms(2,3) by (simp add: has_step [of "CHR ''/''"])
  next
    case 3
    then show ?thesis using assms(2,3) by (simp add: has_step [of "CHR ''-''"])
  next
    case 4
    then show ?thesis using assms(2,3) by (simp add: has_step [of "CHR ''/''"])
  next
    case 5
    then show ?thesis using assms(2,3) by (simp add: has_step [of "CHR ''-''"])
  qed
qed

lemma has_weave:
  assumes "w \<noteq> []" "\<forall>c\<in>set w. alnum c"
    "\<forall>p\<in>set ps. fst p \<in> {''-'', ''/'', ''-/'', ''/-'', ''-/-''} \<and>
       snd p \<noteq> [] \<and> (\<forall>c\<in>set (snd p). alnum c)"
  shows "hyphens_around_slash (weave w ps) =
      weave w (map (\<lambda>p. (if CHR ''/'' \<in> set (fst p) then ''/'' else ''-'', snd p)) ps)"
proof -
  have "hyphens_around_slash (weave w ps @ []) =
      weave w (map (\<lambda>p. (if CHR ''/'' \<in> set (fst p) then ''/'' else ''-'', snd p)) ps) @
      hyphens_around_slash []"
  proof (rule stage_weave [where Wd = "\<lambda>u. u \<noteq> [] \<and> (\<forall>c\<in>set u. alnum c)"
        and Rn = "\<lambda>r. r \<in> {''-'', ''/'', ''-/'', ''/-'', ''-/-''}"])
    fix u t assume "u \<noteq> [] \<and> (\<forall>c\<in>set u. alnum c)"
    then have "CHR ''-'' \<notin> set u" "CHR ''/'' \<notin> set u" by auto
    then show "hyphens_around_slash (u @ t) = u @ hyphens_around_slash t" by (rule has_word)
  next
    fix r v t
    assume r: "r \<in> {''-'', ''/'', ''-/'', ''/-'', ''-/-''}" and v: "v \<noteq> [] \<and> (\<forall>c\<in>set v. alnum c)"
    then obtain x xs where x: "v = x # xs" "alnum x" by (cases v) auto
    then have "x \<noteq> CHR ''-''" "x \<noteq> CHR ''/''" by auto
    from has_run [OF r this, of "xs @ t"] x(1)
    show "hyphens_around_slash (r @ v @ t) =
        (if CHR ''/'' \<in> set r then ''/'' else ''-'') @ hyphens_around_slash (v @ t)" by simp
  next
    show "w \<noteq> [] \<and> (\<forall>c\<in>set w. alnum c)" using assms by simp
    show "\<forall>p\<in>set ps. fst p \<in> {''-'', ''/'', ''-/'', ''/-'', ''-/-''} \<and>
        snd p \<noteq> [] \<and> (\<forall>c\<in>set (snd p). alnum c)" using assms by simp
  qed
  then show ?thesis by simp
qed

lemma joined_weave:
  "joined w ps = weave (map lower_ascii w)
     (map (\<lambda>p. (if CHR ''/'' \<in> set (fst p) then ''/'' else ''-'', map lower_ascii (snd p))) ps)"
  by (induction w ps rule: joined.induct) simp_all

lemma set_weave: "set (weave w ps) = set w \<union> (\<Union>p\<in>set ps. set (fst p) \<union> set (snd p))"
  by (induction w ps rule: weave.induct) auto

text \<open>Words with runs between them, and runs before and after.\<close>

lemma alnum_no_sep:
  assumes "\<forall>c\<in>set u. alnum c"
  shows "CHR ''-'' \<notin> set u" "CHR ''/'' \<notin> set u"
  using assms alnum_simps(1,2) by blast+

lemma map_fst_keeps:
  "\<forall>p\<in>set qs. Q (snd p) \<Longrightarrow> \<forall>p\<in>set (map (\<lambda>q. (f (fst q), snd q)) qs). Q (snd p)"
  by (induction qs) simp_all

lemma slugify_weave:
  assumes w: "plain_word w"
    and ps: "\<forall>p\<in>set ps. (hyphen_run (fst p) \<or> slash_run (fst p)) \<and> plain_word (snd p)"
    and pre: "set pre \<subseteq> set '' _-/''" and post: "set post \<subseteq> set '' _-/''"
  shows "slugify (pre @ weave w ps @ post) = joined w ps"
proof -
  let ?P = "\<lambda>s. filter (\<lambda>c. c \<in> set slug_chars) (map norm_char s)"
  let ?R = "\<lambda>r. squeeze (CHR ''/'') (squeeze (CHR ''-'') (?P r))"
  let ?w = "map lower_ascii w"
  let ?ps1 = "map (\<lambda>p. (?P (fst p), ?P (snd p))) ps"
  let ?ps2 = "map (\<lambda>p. (squeeze (CHR ''-'') (fst p), snd p)) ?ps1"
  let ?ps3 = "map (\<lambda>p. (squeeze (CHR ''/'') (fst p), snd p)) ?ps2"
  have runs: "set (fst p) \<subseteq> set '' _-/''" if "p \<in> set ps" for p
    using ps that by (auto simp: hyphen_run_def slash_run_def)
  have words: "plain_word (snd p)" if "p \<in> set ps" for p using ps that by simp
  have asc: "\<forall>c\<in>set (pre @ weave w ps @ post). ascii c"
  proof
    fix c assume "c \<in> set (pre @ weave w ps @ post)"
    then consider "c \<in> set pre" | "c \<in> set post" | "c \<in> set w"
      | p where "p \<in> set ps" "c \<in> set (fst p)" | p where "p \<in> set ps" "c \<in> set (snd p)"
      by (auto simp: set_weave)
    then show "ascii c"
    proof cases
      case 1 with prep_run(2) [OF pre] show ?thesis by simp
    next
      case 2 with prep_run(2) [OF post] show ?thesis by simp
    next
      case 3 with prep_word(4) [OF w] show ?thesis by simp
    next
      case 4 with prep_run(2) [OF runs] show ?thesis by blast
    next
      case 5 with prep_word(4) [OF words] show ?thesis by blast
    qed
  qed
  have hom: "?P (a @ b) = ?P a @ ?P b" for a b by simp
  have 1: "?P (pre @ weave w ps @ post) = ?P pre @ weave ?w ?ps1 @ ?P post"
    using hom_weave [of ?P w ps] prep_word(1) [OF w] by simp
  have w': "?w \<noteq> []" "\<forall>c\<in>set ?w. alnum c" using prep_word(2,3) [OF w] by simp_all
  have ps1: "snd p \<noteq> [] \<and> (\<forall>c\<in>set (snd p). alnum c)" if "p \<in> set ?ps1" for p
  proof -
    from that obtain q where q: "q \<in> set ps" "snd p = ?P (snd q)" by auto
    from prep_word(1,2,3) [OF words [OF q(1)]] q(2) show ?thesis by simp
  qed
  have nh: "CHR ''-'' \<notin> set ?w" "CHR ''/'' \<notin> set ?w"
    using w'(2) by (rule alnum_no_sep)+
  have ps1w: "\<forall>p\<in>set ?ps1. snd p \<noteq> [] \<and> (\<forall>c\<in>set (snd p). alnum c)"
    using ps1 by blast
  have ps2w: "\<forall>p\<in>set ?ps2. snd p \<noteq> [] \<and> (\<forall>c\<in>set (snd p). alnum c)"
    using ps1w by (rule map_fst_keeps)
  have ps3w: "\<forall>p\<in>set ?ps3. snd p \<noteq> [] \<and> (\<forall>c\<in>set (snd p). alnum c)"
    using ps2w by (rule map_fst_keeps)
  have ps1h: "\<forall>p\<in>set ?ps1. snd p \<noteq> [] \<and> CHR ''-'' \<notin> set (snd p)"
  proof
    fix p assume "p \<in> set ?ps1"
    with ps1w have "snd p \<noteq> []" "\<forall>c\<in>set (snd p). alnum c" by blast+
    with alnum_no_sep(1) [of "snd p"] show "snd p \<noteq> [] \<and> CHR ''-'' \<notin> set (snd p)" by blast
  qed
  have ps2s: "\<forall>p\<in>set ?ps2. snd p \<noteq> [] \<and> CHR ''/'' \<notin> set (snd p)"
  proof
    fix p assume "p \<in> set ?ps2"
    with ps2w have "snd p \<noteq> []" "\<forall>c\<in>set (snd p). alnum c" by blast+
    with alnum_no_sep(2) [of "snd p"] show "snd p \<noteq> [] \<and> CHR ''/'' \<notin> set (snd p)" by blast
  qed
  obtain x xs where x: "?w = x # xs" "alnum x" using w' by (cases ?w) auto
  have x': "x \<noteq> CHR ''-''" "x \<noteq> CHR ''/''" using x(2) alnum_simps(1,2) by blast+
  have hdw: "weave ?w qs @ t = x # (tl (weave ?w qs) @ t)" for qs t
    using x(1) by (cases qs) auto
  have 2: "squeeze (CHR ''-'') (?P pre @ weave ?w ?ps1 @ ?P post) =
      squeeze (CHR ''-'') (?P pre) @ weave ?w ?ps2 @ squeeze (CHR ''-'') (?P post)"
  proof -
    have "squeeze (CHR ''-'') (?P pre @ weave ?w ?ps1 @ ?P post) =
        squeeze (CHR ''-'') (?P pre) @ squeeze (CHR ''-'') (weave ?w ?ps1 @ ?P post)"
      using squeeze_split [OF x'(1), of "?P pre" "tl (weave ?w ?ps1) @ ?P post"]
      by (simp only: hdw [symmetric])
    also have "squeeze (CHR ''-'') (weave ?w ?ps1 @ ?P post) =
        weave ?w ?ps2 @ squeeze (CHR ''-'') (?P post)"
      using w'(1) nh(1) ps1h by (rule squeeze_weave)
    finally show ?thesis .
  qed
  let ?pre2 = "squeeze (CHR ''-'') (?P pre)" and ?post2 = "squeeze (CHR ''-'') (?P post)"
  have 3: "squeeze (CHR ''/'') (?pre2 @ weave ?w ?ps2 @ ?post2) =
      squeeze (CHR ''/'') ?pre2 @ weave ?w ?ps3 @ squeeze (CHR ''/'') ?post2"
  proof -
    have "squeeze (CHR ''/'') (?pre2 @ weave ?w ?ps2 @ ?post2) =
        squeeze (CHR ''/'') ?pre2 @ squeeze (CHR ''/'') (weave ?w ?ps2 @ ?post2)"
      using squeeze_split [OF x'(2), of ?pre2 "tl (weave ?w ?ps2) @ ?post2"]
      by (simp only: hdw [symmetric])
    also have "squeeze (CHR ''/'') (weave ?w ?ps2 @ ?post2) =
        weave ?w ?ps3 @ squeeze (CHR ''/'') ?post2"
      using w'(1) nh(2) ps2s by (rule squeeze_weave)
    finally show ?thesis .
  qed
  have ends: "set (squeeze (CHR ''/'') (squeeze (CHR ''-'') (?P r))) \<subseteq> set ''-/''"
    if "set r \<subseteq> set '' _-/''" for r
  proof -
    have "set (?P r) \<subseteq> set ''-/''" unfolding prep_run(1) [OF that] by auto
    with set_squeeze [of "CHR ''/''" "squeeze (CHR ''-'') (?P r)"]
      set_squeeze [of "CHR ''-''" "?P r"] show ?thesis by blast
  qed
  have ps3: "?ps3 = map (\<lambda>p. (?R (fst p), map lower_ascii (snd p))) ps"
    using prep_word(1) [OF words] by (simp add: comp_def)
  have core: "weave ?w ?ps3 \<noteq> [] \<and> alnum (hd (weave ?w ?ps3)) \<and> alnum (last (weave ?w ?ps3))"
    using w' ps3w by (rule weave_ends)
  have ns: "c \<notin> set ''-/''" if "alnum c" for c using that alnum_simps(1,2) by auto
  from core have ca: "alnum (hd (weave ?w ?ps3))" "alnum (last (weave ?w ?ps3))" by blast+
  have "hd (weave ?w ?ps3) \<notin> set ''-/''" "last (weave ?w ?ps3) \<notin> set ''-/''"
    by (rule ns [OF ca(1)], rule ns [OF ca(2)])
  with core ends [OF pre] ends [OF post]
  have 4: "Trim (squeeze (CHR ''/'') ?pre2 @ weave ?w ?ps3 @ squeeze (CHR ''/'') ?post2) ''-/'' =
      weave ?w ?ps3"
    by (intro Trim_strip) simp_all
  have forms: "\<forall>p\<in>set ?ps3. fst p \<in> {''-'', ''/'', ''-/'', ''/-'', ''-/-''} \<and>
       snd p \<noteq> [] \<and> (\<forall>c\<in>set (snd p). alnum c)"
  proof
    fix p assume p: "p \<in> set ?ps3"
    then obtain q where q: "q \<in> set ps" "fst p = ?R (fst q)" unfolding ps3 by auto
    from ps q(1) have "hyphen_run (fst q) \<or> slash_run (fst q)" by simp
    then have "fst p \<in> {''-'', ''/'', ''-/'', ''/-'', ''-/-''}"
      using run_hyphen [of "fst q"] run_slash [of "fst q"] q(2) by auto
    moreover from ps3w p have "snd p \<noteq> [] \<and> (\<forall>c\<in>set (snd p). alnum c)" by (rule bspec)
    ultimately show "fst p \<in> {''-'', ''/'', ''-/'', ''/-'', ''-/-''} \<and>
       snd p \<noteq> [] \<and> (\<forall>c\<in>set (snd p). alnum c)" by (rule conjI)
  qed
  have 5: "hyphens_around_slash (weave ?w ?ps3) =
      weave ?w (map (\<lambda>p. (if CHR ''/'' \<in> set (fst p) then ''/'' else ''-'', snd p)) ?ps3)"
    using w' forms by (rule has_weave)
  have sep: "(if CHR ''/'' \<in> set (?R (fst q)) then ''/'' else ''-'') =
      (if CHR ''/'' \<in> set (fst q) then ''/'' else ''-'')" if q: "q \<in> set ps" for q
  proof -
    from ps q have "hyphen_run (fst q) \<or> slash_run (fst q)" by simp
    then show ?thesis
    proof
      assume h: "hyphen_run (fst q)"
      then have "CHR ''/'' \<notin> set (fst q)" by (auto simp: hyphen_run_def)
      with run_hyphen [OF h] show ?thesis by simp
    next
      assume s: "slash_run (fst q)"
      then have "CHR ''/'' \<in> set (fst q)" by (simp add: slash_run_def)
      moreover have "CHR ''/'' \<in> set (?R (fst q))" using run_slash [OF s] by auto
      ultimately show ?thesis by simp
    qed
  qed
  have 6: "map (\<lambda>p. (if CHR ''/'' \<in> set (fst p) then ''/'' else ''-'', snd p)) ?ps3 =
      map (\<lambda>p. (if CHR ''/'' \<in> set (fst p) then ''/'' else ''-'', map lower_ascii (snd p))) ps"
    unfolding ps3 map_map comp_def using sep prep_word(1) [OF words] by (intro map_cong) simp_all
  show ?thesis
    unfolding slugify_ascii [OF asc] 1 2 3 4 5 6 joined_weave ..
qed

text \<open>Characters that are not kept have no effect.\<close>

lemma lower_ascii_not_upper: "lower_ascii c \<notin> set ascii_upper"
proof (cases "c \<in> set ascii_upper")
  case True
  then have "lower_ascii c \<in> set ascii_lower" by (rule lower_ascii_upper)
  then show ?thesis by (auto simp: ascii_lower_def ascii_upper_def)
next
  case False
  then show ?thesis by (simp add: lower_ascii_other)
qed

lemma ToLower_no_upper: "\<forall>c\<in>set (ToLower s). c \<notin> set ascii_upper"
proof (induction s rule: ToLower.induct)
  case 1
  show ?case by simp
next
  case (2 c s)
  have "CHR ''k'' \<notin> set ascii_upper" "CHR ''i'' \<notin> set ascii_upper"
    by (simp_all add: ascii_upper_def)
  with 2 lower_ascii_not_upper [of c] show ?case by simp
qed

lemma kept_ascii_aux: "list_all ascii (ascii_upper @ ascii_lower @ ascii_digits @ '' _-/'')"
  by code_simp

lemma kept_ascii: "kept c \<Longrightarrow> ascii c"
  using kept_ascii_aux unfolding kept_def list_all_iff by blast

lemma slugify_kept_lower: "slugify s = slugify (filter kept (ToLower s))"
proof -
  let ?t = "ToLower s"
  have low: "lower_ascii c = c" if "c \<in> set ?t" for c
    using ToLower_no_upper that by (intro lower_ascii_other) blast
  have "map norm_char ?t =
      map (\<lambda>c. if c = CHR ''_'' then CHR ''-'' else c) (map (\<lambda>c. if c = CHR '' '' then CHR ''-'' else c) ?t)"
    using low by (simp add: norm_char_def Let_def)
  then have 1: "strip_unsafe (ReplaceAll (ReplaceAll ?t (CHR '' '') (CHR ''-'')) (CHR ''_'') (CHR ''-''))
      = filter (\<lambda>c. c \<in> set slug_chars) (map norm_char ?t)"
    by (simp only: strip_unsafe_def ReplaceAll_def)
  have "\<forall>c\<in>set (filter kept ?t). ascii c" by (simp add: kept_ascii)
  from slugify_ascii [OF this] have
    "slugify (filter kept ?t) = hyphens_around_slash (Trim (squeeze (CHR ''/'') (squeeze (CHR ''-'')
      (filter (\<lambda>c. c \<in> set slug_chars) (map norm_char ?t)))) ''-/'')"
    by (simp only: prep_filter_kept)
  then show ?thesis unfolding slugify_def Let_def 1 by simp
qed

text \<open>
  Claim C7 (the normalizer is idempotent) fails on the input \<open>a/-/b\<close>: the slashes are
  collapsed before the hyphens around a slash are removed, so the two matches \<open>/-\<close> and
  \<open>/\<close> of the last replacement leave two slashes side by side, which a second call
  collapses.
\<close>

theorem slugify_not_idempotent:
  "slugify ''a/-/b'' = ''a//b'' \<and> slugify (slugify ''a/-/b'') = ''a/b'' \<and>
   slugify (slugify ''a/-/b'') \<noteq> slugify ''a/-/b''"
  by code_simp

text \<open>
  Claim C8, as stated, has every run of white space replaced by a hyphen. A tab is white
  space, and \<open>slugify\<close> removes it: only the space and the underscore become hyphens.
\<close>

theorem slugify_tab_counterexample:
  "slugify (''a'' @ [CHR 0x09] @ ''b'') = ''ab'' \<and> slugify (''a'' @ [CHR 0x09] @ ''b'') \<noteq> ''a-b''"
  by code_simp

text \<open>
  Claim C8, amended: the result of \<open>slugify\<close> holds only the characters \<open>a-z\<close>,
  \<open>0-9\<close>, \<open>/\<close> and \<open>-\<close>; its letters and digits are those of the lower-cased input,
  in their order; it has no two hyphens in a row and no hyphen next to a slash; it
  neither starts nor ends with a hyphen or a slash; it is empty exactly when the input
  has no letter and no digit; a character of the lower-cased input that is no letter,
  digit, space, underscore, hyphen or slash has no effect on the result. For words of
  letters and digits with runs between them, and runs before the first and after the
  last word, the result is the lower-cased words, joined by one hyphen where the run
  holds spaces, underscores and hyphens only, and by one slash where the run has
  slashes, all side by side, with or without spaces, underscores and hyphens around
  them; so \<open>foo-/bar\<close> becomes \<open>foo/bar\<close>.
\<close>

theorem slugify_normal_form:
  "set (slugify s) \<subseteq> set slug_chars \<and>
   filter alnum (slugify s) = filter alnum (ToLower s) \<and>
   successively (\<lambda>a b. \<not> (a = CHR ''-'' \<and> b = CHR ''-'')) (slugify s) \<and>
   successively (\<lambda>a b. \<not> (a = CHR ''-'' \<and> b = CHR ''/'') \<and> \<not> (a = CHR ''/'' \<and> b = CHR ''-''))
     (slugify s) \<and>
   (slugify s \<noteq> [] \<longrightarrow> alnum (hd (slugify s)) \<and> alnum (last (slugify s))) \<and>
   (slugify s = [] \<longleftrightarrow> filter alnum (ToLower s) = []) \<and>
   slugify s = slugify (filter kept (ToLower s)) \<and>
   (plain_word w \<and>
    (\<forall>p\<in>set ps. (hyphen_run (fst p) \<or> slash_run (fst p)) \<and> plain_word (snd p)) \<and>
    set pre \<subseteq> set '' _-/'' \<and> set post \<subseteq> set '' _-/'' \<longrightarrow>
    slugify (pre @ weave w ps @ post) = joined w ps) \<and>
   slugify ''foo-/bar'' = ''foo/bar''"
proof -
  have "successively (\<lambda>a b. \<not> (a = CHR ''-'' \<and> b = CHR ''/'') \<and> \<not> (a = CHR ''/'' \<and> b = CHR ''-''))
     (slugify s)"
    unfolding slugify_pre_trim by (rule has_no_hyphen_slash)
  moreover have "slugify ''foo-/bar'' = ''foo/bar''" by code_simp
  moreover have "slugify (pre @ weave w ps @ post) = joined w ps"
    if "plain_word w \<and>
      (\<forall>p\<in>set ps. (hyphen_run (fst p) \<or> slash_run (fst p)) \<and> plain_word (snd p)) \<and>
      set pre \<subseteq> set '' _-/'' \<and> set post \<subseteq> set '' _-/''"
    using that by (intro slugify_weave) blast+
  ultimately show ?thesis
    using set_slugify [of s] filter_slugify [of s] slugify_no_double_hyphen [of s]
      slugify_ends [of s] slugify_empty_iff [of s] slugify_kept_lower [of s]
    by blast
qed

theorem slugify_normal_form_witness:
  "slugify ''Hello World'' \<noteq> [] \<and> alnum (hd (slugify ''Hello World'')) \<and>
   slugify (''ab'' @ '' _ '' @ ''c1'') = ''ab-c1'' \<and>
   slugify ''  Hello big__World - / - 2nd//PART-/'' = ''hello-big-world/2nd/part''"
proof -
  have 1: "slugify ''Hello World'' \<noteq> []" by code_simp
  have a: "alnum (hd (slugify ''Hello World''))"
    using slugify_normal_form [of "''Hello World''" "[]" "[]" "[]" "[]"] 1 by blast
  have 2: "plain_word ''ab'' \<and>
      (\<forall>p\<in>set [('' _ '', ''c1'')]. (hyphen_run (fst p) \<or> slash_run (fst p)) \<and> plain_word (snd p)) \<and>
      set [] \<subseteq> set '' _-/'' \<and> set [] \<subseteq> set '' _-/''"
    by code_simp
  have b: "slugify ([] @ weave ''ab'' [('' _ '', ''c1'')] @ []) = joined ''ab'' [('' _ '', ''c1'')]"
    using slugify_normal_form [of "''Hello World''" "''ab''" "[('' _ '', ''c1'')]" "[]" "[]"] 2
    by blast
  let ?ps = "[('' '', ''big''), (''__'', ''World''), ('' - / - '', ''2nd''), (''//'', ''PART'')]"
  have 3: "plain_word ''Hello'' \<and>
      (\<forall>p\<in>set ?ps. (hyphen_run (fst p) \<or> slash_run (fst p)) \<and> plain_word (snd p)) \<and>
      set ''  '' \<subseteq> set '' _-/'' \<and> set ''-/'' \<subseteq> set '' _-/''"
    by code_simp
  have c: "slugify (''  '' @ weave ''Hello'' ?ps @ ''-/'') = joined ''Hello'' ?ps"
    using slugify_normal_form [of "''Hello World''" "''Hello''" ?ps "''  ''" "''-/''"] 3
    by blast
  have w1: "[] @ weave ''ab'' [('' _ '', ''c1'')] @ [] = ''ab'' @ '' _ '' @ ''c1''" by simp
  have j1: "joined ''ab'' [('' _ '', ''c1'')] = ''ab-c1''" by code_simp
  have w2: "''  '' @ weave ''Hello'' ?ps @ ''-/'' = ''  Hello big__World - / - 2nd//PART-/''" by simp
  have j2: "joined ''Hello'' ?ps = ''hello-big-world/2nd/part''" by code_simp
  from b c show ?thesis unfolding w1 j1 w2 j2 using 1 a by blast
qed

section \<open>Share link validation\<close>

text \<open>The two queries on the access log.\<close>

lemma unique_ips_card:
  "GetShareLinkUniqueIPCount st linkID = int (card (logged_ips st linkID))"
proof -
  let ?xs = "map access_ip_address
      (filter (\<lambda>a. access_share_link_id a = linkID) (share_link_accesses st))"
  have "card (set ?xs) = length (remdups ?xs)" by (rule card_set)
  moreover have "logged_ips st linkID = set ?xs" by (simp only: logged_ips_def set_map)
  ultimately show ?thesis by (simp only: GetShareLinkUniqueIPCount_def)
qed

lemma has_accessed_iff:
  "HasIPAccessedShareLink st linkID ip \<longleftrightarrow> ip \<in> logged_ips st linkID"
proof -
  have "filter (\<lambda>a. access_share_link_id a = linkID \<and> access_ip_address a = ip) xs \<noteq> [] \<longleftrightarrow>
      ip \<in> access_ip_address ` set (filter (\<lambda>a. access_share_link_id a = linkID) xs)" for xs
    by (induction xs) auto
  then show ?thesis by (simp add: HasIPAccessedShareLink_def logged_ips_def)
qed

lemma validate_iff:
  "validateShareLink now st link ip = None \<longleftrightarrow>
     \<not> link_is_revoked link \<and>
     (case link_expires_at link of None \<Rightarrow> True | Some t \<Rightarrow> \<not> now > t) \<and>
     (case link_max_views link of None \<Rightarrow> True | Some m \<Rightarrow> link_view_count link < m) \<and>
     (case link_max_ips link of None \<Rightarrow> True
      | Some m \<Rightarrow> ip \<in> logged_ips st (link_id link) \<or>
                 int (card (logged_ips st (link_id link))) < m)"
  by (auto simp: validateShareLink_def IsExpired_def IsViewLimitReached_def Let_def
      unique_ips_card has_accessed_iff split: option.splits)

lemma validate_order:
  "validateShareLink now st link ip =
     (if link_is_revoked link then Some Revoked
      else if (case link_expires_at link of None \<Rightarrow> False | Some t \<Rightarrow> now > t) then Some Expired
      else if (case link_max_views link of None \<Rightarrow> False | Some m \<Rightarrow> link_view_count link \<ge> m)
      then Some ViewLimitReached
      else if (case link_max_ips link of None \<Rightarrow> False
               | Some m \<Rightarrow> ip \<notin> logged_ips st (link_id link) \<and>
                          int (card (logged_ips st (link_id link))) \<ge> m)
      then Some IPLimitReached else None)"
  by (auto simp: validateShareLink_def IsExpired_def IsViewLimitReached_def Let_def
      unique_ips_card has_accessed_iff split: option.splits)

text \<open>The store after an access has been recorded.\<close>

lemma find_map_update:
  assumes "find P xs = Some x" "\<And>y. P (f y) = P y"
  shows "find P (map f xs) = Some (f x)"
  using assms by (induction xs) (auto split: if_splits)

lemma GetShareLinkByToken_Some:
  "GetShareLinkByToken st h = Inr (Some l) \<longleftrightarrow>
     find (\<lambda>l. link_token_hash l = h) (share_links st) = Some l \<and> link_view_count l \<le> max_int64"
  by (auto simp: GetShareLinkByToken_def split: option.splits)

lemma GetShareLinkByToken_Record:
  assumes "GetShareLinkByToken st h = Inr (Some l)" "link_view_count l < max_int64"
  shows "GetShareLinkByToken (RecordShareAccess now st (link_id l) ip ua) h =
     Inr (Some (l\<lparr>link_view_count := link_view_count l + 1\<rparr>))"
proof -
  let ?f = "\<lambda>l'. if link_id l' = link_id l then l'\<lparr>link_view_count := link_view_count l' + 1\<rparr> else l'"
  from assms(1) have "find (\<lambda>l. link_token_hash l = h) (share_links st) = Some l"
    by (simp add: GetShareLinkByToken_Some)
  then have "find (\<lambda>l. link_token_hash l = h) (map ?f (share_links st)) = Some (?f l)"
    by (intro find_map_update) auto
  then have "find (\<lambda>l. link_token_hash l = h)
      (share_links (RecordShareAccess now st (link_id l) ip ua)) =
      Some (l\<lparr>link_view_count := link_view_count l + 1\<rparr>)"
    by (simp add: RecordShareAccess_def)
  then show ?thesis using assms(2) by (simp add: GetShareLinkByToken_Some)
qed

lemma logged_ips_Record:
  "logged_ips (RecordShareAccess now st i ip ua) j =
     (if j = i then insert ip (logged_ips st j) else logged_ips st j)"
  by (auto simp: logged_ips_def RecordShareAccess_def)

lemma share_request_valid:
  assumes "GetShareLinkByToken st h = Inr (Some l)" "validateShareLink now st l ip = None"
  shows "share_request now st h ip ua = (Some None, RecordShareAccess now st (link_id l) ip ua)"
  using assms by (simp add: share_request_def)

lemma share_request_denied:
  assumes "GetShareLinkByToken st h = Inr (Some l)" "validateShareLink now st l ip = Some r"
  shows "share_request now st h ip ua = (Some (Some r), st)"
  using assms by (simp add: share_request_def)


text \<open>A request that is served: the link, the log and the count afterwards.\<close>

lemma request_served:
  assumes l: "GetShareLinkByToken st h = Inr (Some l)"
    and v: "validateShareLink now st l ip = None"
    and c: "link_view_count l < max_int64"
    and i: "i = link_id l"
  shows "share_request now st h ip ua = (Some None, RecordShareAccess now st i ip ua)"
    and "GetShareLinkByToken (RecordShareAccess now st i ip ua) h =
      Inr (Some (l\<lparr>link_view_count := link_view_count l + 1\<rparr>))"
    and "logged_ips (RecordShareAccess now st i ip ua) i = insert ip (logged_ips st i)"
  using share_request_valid [OF l v] GetShareLinkByToken_Record [OF l c]
  by (simp_all add: logged_ips_Record i)

lemma max_views_two:
  assumes l: "GetShareLinkByToken st h = Inr (Some l)"
    and "\<not> link_is_revoked l" "link_max_views l = Some 2" "link_view_count l = 0"
      "link_max_ips l = None"
    and "\<not> IsExpired now1 l" "\<not> IsExpired now2 l" "\<not> IsExpired now3 l"
  shows "\<exists>st1 st2.
      share_request now1 st h ip1 ua1 = (Some None, st1) \<and>
      share_request now2 st1 h ip2 ua2 = (Some None, st2) \<and>
      share_request now3 st2 h ip3 ua3 = (Some (Some ViewLimitReached), st2)"
proof -
  let ?i = "link_id l"
  let ?st1 = "RecordShareAccess now1 st ?i ip1 ua1"
  let ?l1 = "l\<lparr>link_view_count := link_view_count l + 1\<rparr>"
  let ?st2 = "RecordShareAccess now2 ?st1 ?i ip2 ua2"
  let ?l2 = "?l1\<lparr>link_view_count := link_view_count ?l1 + 1\<rparr>"
  have c: "link_view_count l < max_int64" "link_view_count ?l1 < max_int64"
    using assms(4) by (simp_all add: max_int64_def)
  have i: "?i = link_id l" "?i = link_id ?l1" by simp_all
  have v1: "validateShareLink now1 st l ip1 = None"
    using assms by (simp add: validate_iff IsExpired_def split: option.splits)
  note r1 = request_served [OF l v1 c(1) i(1), of ua1]
  have v2: "validateShareLink now2 ?st1 ?l1 ip2 = None"
    using assms by (simp add: validate_iff IsExpired_def split: option.splits)
  note r2 = request_served [OF r1(2) v2 c(2) i(2), of ua2]
  have v3: "validateShareLink now3 ?st2 ?l2 ip3 = Some ViewLimitReached"
    using assms by (simp add: validate_order IsExpired_def split: option.splits)
  show ?thesis
    using r1(1) r2(1) share_request_denied [OF r2(2) v3] by blast
qed

lemma max_ips_one:
  assumes l: "GetShareLinkByToken st h = Inr (Some l)"
    and "\<not> link_is_revoked l" "link_max_views l = None" "link_max_ips l = Some 1"
    and fresh: "logged_ips st (link_id l) = {}"
    and c: "link_view_count l < max_int64"
    and "\<not> IsExpired now1 l" "\<not> IsExpired now2 l" "\<not> IsExpired now3 l"
    and "ip2 \<noteq> ip1"
  shows "\<exists>st1 st3.
      share_request now1 st h ip1 ua1 = (Some None, st1) \<and>
      share_request now2 st1 h ip2 ua2 = (Some (Some IPLimitReached), st1) \<and>
      share_request now3 st1 h ip1 ua3 = (Some None, st3)"
proof -
  let ?i = "link_id l"
  let ?st1 = "RecordShareAccess now1 st ?i ip1 ua1"
  let ?l1 = "l\<lparr>link_view_count := link_view_count l + 1\<rparr>"
  have v1: "validateShareLink now1 st l ip1 = None"
    using assms by (simp add: validate_iff IsExpired_def split: option.splits)
  note r1 = request_served [OF l v1 c refl, of ua1]
  have log1: "logged_ips ?st1 ?i = {ip1}" using r1(3) fresh by simp
  have v2: "validateShareLink now2 ?st1 ?l1 ip2 = Some IPLimitReached"
    using assms by (simp add: validate_order log1 IsExpired_def split: option.splits)
  have v3: "validateShareLink now3 ?st1 ?l1 ip1 = None"
    using assms by (simp add: validate_iff log1 IsExpired_def split: option.splits)
  show ?thesis
    using r1(1) share_request_denied [OF r1(2) v2] share_request_valid [OF r1(2) v3] by blast
qed

text \<open>
  A limit of two addresses: the first address is served twice, a second address is
  served, a third is denied, and the second is still served.
\<close>

lemma max_ips_two:
  assumes l: "GetShareLinkByToken st h = Inr (Some l)"
    and "\<not> link_is_revoked l" "link_max_views l = None" "link_max_ips l = Some 2"
    and fresh: "logged_ips st (link_id l) = {}"
    and c: "link_view_count l + 3 \<le> max_int64"
    and ex: "link_expires_at l = None"
    and ips: "ip2 \<noteq> ip1" "ip3 \<noteq> ip1" "ip3 \<noteq> ip2"
  shows "\<exists>st1 st2 st3 st5.
      share_request n1 st h ip1 ua = (Some None, st1) \<and>
      share_request n2 st1 h ip1 ua = (Some None, st2) \<and>
      share_request n3 st2 h ip2 ua = (Some None, st3) \<and>
      share_request n4 st3 h ip3 ua = (Some (Some IPLimitReached), st3) \<and>
      share_request n5 st3 h ip2 ua = (Some None, st5)"
proof -
  let ?i = "link_id l"
  let ?st1 = "RecordShareAccess n1 st ?i ip1 ua"
  let ?l1 = "l\<lparr>link_view_count := link_view_count l + 1\<rparr>"
  let ?st2 = "RecordShareAccess n2 ?st1 ?i ip1 ua"
  let ?l2 = "?l1\<lparr>link_view_count := link_view_count ?l1 + 1\<rparr>"
  let ?st3 = "RecordShareAccess n3 ?st2 ?i ip2 ua"
  let ?l3 = "?l2\<lparr>link_view_count := link_view_count ?l2 + 1\<rparr>"
  have cs: "link_view_count l < max_int64" "link_view_count ?l1 < max_int64"
    "link_view_count ?l2 < max_int64" using c by simp_all
  have i: "?i = link_id ?l1" "?i = link_id ?l2" by simp_all
  have v1: "validateShareLink n1 st l ip1 = None"
    using assms by (simp add: validate_iff)
  note r1 = request_served [OF l v1 cs(1) refl, of ua]
  have log1: "logged_ips ?st1 ?i = {ip1}" using r1(3) fresh by simp
  have v2: "validateShareLink n2 ?st1 ?l1 ip1 = None"
    using assms by (simp add: validate_iff log1)
  note r2 = request_served [OF r1(2) v2 cs(2) i(1), of ua]
  have log2: "logged_ips ?st2 ?i = {ip1}" using r2(3) log1 by simp
  have v3: "validateShareLink n3 ?st2 ?l2 ip2 = None"
    using assms by (simp add: validate_iff log2)
  note r3 = request_served [OF r2(2) v3 cs(3) i(2), of ua]
  have log3: "logged_ips ?st3 ?i = {ip2, ip1}" using r3(3) log2 by simp
  have card3: "card {ip2, ip1} = 2" using ips(1) by simp
  have v4: "validateShareLink n4 ?st3 ?l3 ip3 = Some IPLimitReached"
    using assms by (simp add: validate_order log3 card3)
  have v5: "validateShareLink n5 ?st3 ?l3 ip2 = None"
    using assms by (simp add: validate_iff log3)
  show ?thesis
    using r1(1) r2(1) r3(1) share_request_denied [OF r3(2) v4] share_request_valid [OF r3(2) v5]
    by blast
qed


text \<open>
  Claim C4: \<open>validateShareLink\<close> accepts an access exactly when the link is not revoked,
  not expired, below its view limit if it has one, and, if it has a limit of addresses,
  the address is among the addresses logged for the link or the number of distinct
  addresses logged for it is below the limit; the reasons for a denial are tried in the
  order revoked, expired, view limit, address limit. With a limit of two views the third
  request is denied for the view limit whatever the three addresses are; with a limit of
  one address a second address is denied and the first one is still served; with a limit
  of two addresses the first address can come twice and a second address is still
  served, a third one is denied.
\<close>

theorem share_link_validation:
  "(validateShareLink now st link ip = None \<longleftrightarrow>
     \<not> link_is_revoked link \<and>
     (case link_expires_at link of None \<Rightarrow> True | Some t \<Rightarrow> \<not> now > t) \<and>
     (case link_max_views link of None \<Rightarrow> True | Some m \<Rightarrow> link_view_count link < m) \<and>
     (case link_max_ips link of None \<Rightarrow> True
      | Some m \<Rightarrow> ip \<in> logged_ips st (link_id link) \<or>
                 int (card (logged_ips st (link_id link))) < m)) \<and>
   validateShareLink now st link ip =
     (if link_is_revoked link then Some Revoked
      else if (case link_expires_at link of None \<Rightarrow> False | Some t \<Rightarrow> now > t) then Some Expired
      else if (case link_max_views link of None \<Rightarrow> False | Some m \<Rightarrow> link_view_count link \<ge> m)
      then Some ViewLimitReached
      else if (case link_max_ips link of None \<Rightarrow> False
               | Some m \<Rightarrow> ip \<notin> logged_ips st (link_id link) \<and>
                          int (card (logged_ips st (link_id link))) \<ge> m)
      then Some IPLimitReached else None) \<and>
   (GetShareLinkByToken st h = Inr (Some l) \<and> \<not> link_is_revoked l \<and> link_max_views l = Some 2 \<and>
    link_view_count l = 0 \<and> link_max_ips l = None \<and>
    \<not> IsExpired now1 l \<and> \<not> IsExpired now2 l \<and> \<not> IsExpired now3 l \<longrightarrow>
    (\<exists>st1 st2.
       share_request now1 st h ip1 ua1 = (Some None, st1) \<and>
       share_request now2 st1 h ip2 ua2 = (Some None, st2) \<and>
       share_request now3 st2 h ip3 ua3 = (Some (Some ViewLimitReached), st2))) \<and>
   (GetShareLinkByToken st h = Inr (Some l) \<and> \<not> link_is_revoked l \<and> link_max_views l = None \<and>
    link_max_ips l = Some 1 \<and> logged_ips st (link_id l) = {} \<and>
    link_view_count l < max_int64 \<and>
    \<not> IsExpired now1 l \<and> \<not> IsExpired now2 l \<and> \<not> IsExpired now3 l \<and> ip2 \<noteq> ip1 \<longrightarrow>
    (\<exists>st1 st3.
       share_request now1 st h ip1 ua1 = (Some None, st1) \<and>
       share_request now2 st1 h ip2 ua2 = (Some (Some IPLimitReached), st1) \<and>
       share_request now3 st1 h ip1 ua3 = (Some None, st3))) \<and>
   (GetShareLinkByToken st h = Inr (Some l) \<and> \<not> link_is_revoked l \<and> link_max_views l = None \<and>
    link_max_ips l = Some 2 \<and> logged_ips st (link_id l) = {} \<and>
    link_view_count l + 3 \<le> max_int64 \<and> link_expires_at l = None \<and>
    ip2 \<noteq> ip1 \<and> ip3 \<noteq> ip1 \<and> ip3 \<noteq> ip2 \<longrightarrow>
    (\<exists>st1 st2 st3 st5.
       share_request n1 st h ip1 ua = (Some None, st1) \<and>
       share_request n2 st1 h ip1 ua = (Some None, st2) \<and>
       share_request n3 st2 h ip2 ua = (Some None, st3) \<and>
       share_request n4 st3 h ip3 ua = (Some (Some IPLimitReached), st3) \<and>
       share_request n5 st3 h ip2 ua = (Some None, st5)))"
  using validate_iff [of now st link ip] validate_order [of now st link ip]
    max_views_two [of st h l now1 now2 now3 ip1 ua1 ip2 ua2 ip3 ua3]
    max_ips_one [of st h l now1 now2 now3 ip2 ip1 ua1 ua2 ua3]
    max_ips_two [of st h l ip2 ip1 ip3 n1 ua n2 n3 n4 n5]
  by blast

theorem share_link_validation_witness:
  "(\<exists>st1 st2.
      share_request 1 example_share_db ''h1'' ''10.0.0.1'' ''ua'' = (Some None, st1) \<and>
      share_request 2 st1 ''h1'' ''10.0.0.2'' ''ua'' = (Some None, st2) \<and>
      share_request 3 st2 ''h1'' ''10.0.0.3'' ''ua'' = (Some (Some ViewLimitReached), st2)) \<and>
   (\<exists>st1 st3.
      share_request 1 example_share_db ''h2'' ''10.0.0.1'' ''ua'' = (Some None, st1) \<and>
      share_request 2 st1 ''h2'' ''10.0.0.2'' ''ua'' = (Some (Some IPLimitReached), st1) \<and>
      share_request 3 st1 ''h2'' ''10.0.0.1'' ''ua'' = (Some None, st3)) \<and>
   (\<exists>st1 st2 st3 st5.
      share_request 1 example_share_db ''h3'' ''10.0.0.1'' ''ua'' = (Some None, st1) \<and>
      share_request 2 st1 ''h3'' ''10.0.0.1'' ''ua'' = (Some None, st2) \<and>
      share_request 3 st2 ''h3'' ''10.0.0.2'' ''ua'' = (Some None, st3) \<and>
      share_request 4 st3 ''h3'' ''10.0.0.3'' ''ua'' = (Some (Some IPLimitReached), st3) \<and>
      share_request 5 st3 ''h3'' ''10.0.0.2'' ''ua'' = (Some None, st5))"
proof -
  have a: "GetShareLinkByToken example_share_db ''h1'' = Inr (Some two_views_link) \<and>
      \<not> link_is_revoked two_views_link \<and> link_max_views two_views_link = Some 2 \<and>
      link_view_count two_views_link = 0 \<and> link_max_ips two_views_link = None \<and>
      \<not> IsExpired 1 two_views_link \<and> \<not> IsExpired 2 two_views_link \<and>
      \<not> IsExpired 3 two_views_link"
    by (simp add: GetShareLinkByToken_def example_share_db_def two_views_link_def IsExpired_def
        max_int64_def)
  have b: "GetShareLinkByToken example_share_db ''h2'' = Inr (Some one_ip_link) \<and>
      \<not> link_is_revoked one_ip_link \<and> link_max_views one_ip_link = None \<and>
      link_max_ips one_ip_link = Some 1 \<and>
      logged_ips example_share_db (link_id one_ip_link) = {} \<and>
      link_view_count one_ip_link < max_int64 \<and>
      \<not> IsExpired 1 one_ip_link \<and> \<not> IsExpired 2 one_ip_link \<and> \<not> IsExpired 3 one_ip_link \<and>
      ''10.0.0.2'' \<noteq> ''10.0.0.1''"
    by (simp add: GetShareLinkByToken_def example_share_db_def two_views_link_def
        one_ip_link_def IsExpired_def max_int64_def logged_ips_def)
  have c: "GetShareLinkByToken example_share_db ''h3'' = Inr (Some two_ips_link) \<and>
      \<not> link_is_revoked two_ips_link \<and> link_max_views two_ips_link = None \<and>
      link_max_ips two_ips_link = Some 2 \<and>
      logged_ips example_share_db (link_id two_ips_link) = {} \<and>
      link_view_count two_ips_link + 3 \<le> max_int64 \<and> link_expires_at two_ips_link = None \<and>
      ''10.0.0.2'' \<noteq> ''10.0.0.1'' \<and> ''10.0.0.3'' \<noteq> ''10.0.0.1'' \<and> ''10.0.0.3'' \<noteq> ''10.0.0.2''"
    by (simp add: GetShareLinkByToken_def example_share_db_def two_views_link_def
        one_ip_link_def two_ips_link_def max_int64_def logged_ips_def)
  note t1 = share_link_validation [where st = example_share_db and h = "''h1''"
        and l = two_views_link and ?now1.0 = 1 and ?now2.0 = 2 and ?now3.0 = 3
        and ?ip1.0 = "''10.0.0.1''" and ?ip2.0 = "''10.0.0.2''" and ?ip3.0 = "''10.0.0.3''"
        and ?ua1.0 = "''ua''" and ?ua2.0 = "''ua''" and ?ua3.0 = "''ua''",
        THEN conjunct2, THEN conjunct2, THEN conjunct1, THEN mp, OF a]
  note t2 = share_link_validation [where st = example_share_db and h = "''h2''"
        and l = one_ip_link and ?now1.0 = 1 and ?now2.0 = 2 and ?now3.0 = 3
        and ?ip1.0 = "''10.0.0.1''" and ?ip2.0 = "''10.0.0.2''"
        and ?ua1.0 = "''ua''" and ?ua2.0 = "''ua''" and ?ua3.0 = "''ua''",
        THEN conjunct2, THEN conjunct2, THEN conjunct2, THEN conjunct1, THEN mp, OF b]
  note t3 = share_link_validation [where st = example_share_db and h = "''h3''"
        and l = two_ips_link and ?n1.0 = 1 and ?n2.0 = 2 and ?n3.0 = 3 and ?n4.0 = 4 and ?n5.0 = 5
        and ?ip1.0 = "''10.0.0.1''" and ?ip2.0 = "''10.0.0.2''" and ?ip3.0 = "''10.0.0.3''"
        and ua = "''ua''",
        THEN conjunct2, THEN conjunct2, THEN conjunct2, THEN conjunct2, THEN mp, OF c]
  from t1 t2 t3 show ?thesis by (intro conjI)
qed

section \<open>Creating pages\<close>

lemma find_Some_D: "find P xs = Some x \<Longrightarrow> x \<in> set xs \<and> P x"
  by (induction xs) (auto split: if_splits)



lemma nocase_eq_refl [simp]: "nocase_eq s s"
  by (simp add: nocase_eq_def)


lemma GetPageBySlug_None_iff:
  "GetPageBySlug d s = None \<longleftrightarrow> \<not> slug_taken d None s"
  by (auto simp: GetPageBySlug_def slug_taken_def find_None_iff)

lemma GetPageByID_D: "GetPageByID d i = Some p \<Longrightarrow> p \<in> set (pages d) \<and> page_id p = i"
  unfolding GetPageByID_def by (drule find_Some_D) simp

text \<open>The insert of a page.\<close>

lemma DB_CreatePage_Inl: "DB_CreatePage now d page = (Inl e, d') \<Longrightarrow> d' = d"
  by (auto simp: DB_CreatePage_def Let_def split: if_splits)

lemma DB_CreatePage_Inr:
  assumes "DB_CreatePage now d page = (Inr p, d')"
  shows "d' = d\<lparr>pages := pages d @ [p], page_seq := page_seq d + 1\<rparr>"
    and "p = page\<lparr>page_created_at := now, page_updated_at := now,
              page_published_at := (if page_is_published page then Some now else page_published_at page),
              page_id := page_seq d + 1\<rparr>"
    and "\<not> slug_taken d None (page_slug page)" and "parent_ok d (page_parent_id page)"
  using assms by (auto simp: DB_CreatePage_def Let_def split: if_splits)

lemma DB_CreatePage_ok:
  assumes "\<not> slug_taken d None (page_slug page)" "parent_ok d (page_parent_id page)"
  shows "\<exists>p d'. DB_CreatePage now d page = (Inr p, d')"
  using assms by (auto simp: DB_CreatePage_def Let_def)

text \<open>What \<open>ensureParentPages\<close> inserts.\<close>

lemma ensureParentPages_loop_props:
  assumes "ensureParentPages_loop render now authorID parts is par d = (r, d')"
  shows "\<exists>new. d' = d\<lparr>pages := pages d @ new, page_seq := page_seq d + int (length new)\<rparr> \<and>
           map page_id new = map (\<lambda>k. page_seq d + 1 + int k) [0..<length new] \<and>
           (\<forall>p\<in>set new. placeholder now authorID p)"
  using assms
proof (induction "is" arbitrary: par d)
  case Nil
  then have "d' = d" by simp
  then show ?case by (intro exI [of _ "[]"]) simp
next
  case (Cons i "is")
  let ?slug = "Join (take (i + 1) parts) (CHR ''/'')"
  show ?case
  proof (cases "GetPageBySlug d ?slug")
    case (Some existing)
    with Cons.prems have "ensureParentPages_loop render now authorID parts is (Some (page_id existing)) d = (r, d')"
      by (simp add: Let_def)
    then show ?thesis by (rule Cons.IH)
  next
    case None
    let ?parent = "\<lparr>page_id = 0, page_slug = ?slug,
        page_title = Title (ReplaceAll (parts ! i) (CHR ''-'') (CHR '' '')),
        page_content = [], page_content_html = (case render [] of Some html \<Rightarrow> html | None \<Rightarrow> []),
        page_author_id = authorID, page_parent_id = par,
        page_is_published = True, page_created_at = 0,
        page_updated_at = 0, page_published_at = None\<rparr>"
    obtain o1 d1 where c: "DB_CreatePage now d ?parent = (o1, d1)" by (cases "DB_CreatePage now d ?parent")
    show ?thesis
    proof (cases o1)
      case (Inl e)
      with c Cons.prems None have "d' = d1" by (simp add: Let_def)
      moreover have "d1 = d" using c Inl by (auto dest: DB_CreatePage_Inl)
      ultimately show ?thesis by (intro exI [of _ "[]"]) simp
    next
      case (Inr p)
      with c Cons.prems None have
        "ensureParentPages_loop render now authorID parts is (Some (page_id p)) d1 = (r, d')"
        by (simp add: Let_def)
      from Cons.IH [OF this] obtain new where new:
        "d' = d1\<lparr>pages := pages d1 @ new, page_seq := page_seq d1 + int (length new)\<rparr>"
        "map page_id new = map (\<lambda>k. page_seq d1 + 1 + int k) [0..<length new]"
        "\<forall>p\<in>set new. placeholder now authorID p" by blast
      from c Inr have d1: "d1 = d\<lparr>pages := pages d @ [p], page_seq := page_seq d + 1\<rparr>"
        and p: "p = ?parent\<lparr>page_created_at := now, page_updated_at := now,
              page_published_at := (if page_is_published ?parent then Some now else page_published_at ?parent),
              page_id := page_seq d + 1\<rparr>"
        by (auto dest: DB_CreatePage_Inr)
      have "d' = d\<lparr>pages := pages d @ (p # new), page_seq := page_seq d + int (length (p # new))\<rparr>"
        using new(1) d1 by simp
      moreover have "map page_id (p # new) = map (\<lambda>k. page_seq d + 1 + int k) [0..<length (p # new)]"
      proof -
        have "[0..<length (p # new)] = 0 # map Suc [0..<length new]"
          by (simp only: length_Cons upt_conv_Cons [OF zero_less_Suc] map_Suc_upt)
        moreover have "page_id p = page_seq d + 1" using p by simp
        ultimately show ?thesis using new(2) d1 by (simp add: comp_def add.commute add.left_commute del: upt_Suc)
      qed
      moreover have "\<forall>q\<in>set (p # new). placeholder now authorID q"
        using new(3) p by (simp add: placeholder_def)
      ultimately show ?thesis by blast
    qed
  qed
qed

lemma ensureParentPages_props:
  assumes "ensureParentPages render now d authorID slug = (r, d')"
  shows "\<exists>new. d' = d\<lparr>pages := pages d @ new, page_seq := page_seq d + int (length new)\<rparr> \<and>
           map page_id new = map (\<lambda>k. page_seq d + 1 + int k) [0..<length new] \<and>
           (\<forall>p\<in>set new. placeholder now authorID p)"
proof (cases "length (Split slug (CHR ''/'')) \<le> 1")
  case True
  with assms have "d' = d" by (simp add: ensureParentPages_def)
  then show ?thesis by (intro exI [of _ "[]"]) simp
next
  case False
  with assms show ?thesis
    by (intro ensureParentPages_loop_props [of render now authorID "Split slug (CHR ''/'')" _ None d r d'])
       (simp add: ensureParentPages_def Let_def)
qed

text \<open>The tags and the revisions leave the pages alone.\<close>

lemma getOrCreateTagTx_other:
  "getOrCreateTagTx lower d name = (t, d') \<Longrightarrow>
     pages d' = pages d \<and> revisions d' = revisions d \<and> page_seq d' = page_seq d \<and>
     revision_seq d' = revision_seq d"
  by (auto simp: getOrCreateTagTx_def Let_def split: option.splits)

lemma add_page_tags_other:
  "add_page_tags lower d i names = Inr d' \<Longrightarrow>
   pages d' = pages d \<and> revisions d' = revisions d \<and>
   page_seq d' = page_seq d \<and> revision_seq d' = revision_seq d"
proof (induction names arbitrary: d)
  case Nil
  then show ?case by simp
next
  case (Cons name names)
  show ?case
  proof (cases "TrimSpace name = []")
    case True
    with Cons.prems have "add_page_tags lower d i names = Inr d'" by (simp add: Let_def)
    then show ?thesis by (rule Cons.IH)
  next
    case False
    obtain t d1 where g: "getOrCreateTagTx lower d (TrimSpace name) = (t, d1)"
      by (cases "getOrCreateTagTx lower d (TrimSpace name)")
    let ?d2 = "if (i, tag_id t) \<in> set (page_tags d1) then d1
               else d1\<lparr>page_tags := page_tags d1 @ [(i, tag_id t)]\<rparr>"
    have "add_page_tags lower ?d2 i names = Inr d'"
      using False g Cons.prems by (simp add: Let_def split: if_splits)
    from Cons.IH [OF this] have "pages d' = pages ?d2 \<and> revisions d' = revisions ?d2 \<and>
        page_seq d' = page_seq ?d2 \<and> revision_seq d' = revision_seq ?d2" .
    moreover have "pages ?d2 = pages d \<and> revisions ?d2 = revisions d \<and> page_seq ?d2 = page_seq d \<and>
        revision_seq ?d2 = revision_seq d"
      using getOrCreateTagTx_other [OF g] by simp
    ultimately show ?thesis by simp
  qed
qed

lemma SetPageTags_other:
  "pages (snd (SetPageTags lower d i names)) = pages d"
  "revisions (snd (SetPageTags lower d i names)) = revisions d"
  "page_seq (snd (SetPageTags lower d i names)) = page_seq d"
  "revision_seq (snd (SetPageTags lower d i names)) = revision_seq d"
proof -
  let ?d0 = "d\<lparr>page_tags := filter (\<lambda>pt. fst pt \<noteq> i) (page_tags d)\<rparr>"
  have "pages (snd (SetPageTags lower d i names)) = pages d \<and>
      revisions (snd (SetPageTags lower d i names)) = revisions d \<and>
      page_seq (snd (SetPageTags lower d i names)) = page_seq d \<and>
      revision_seq (snd (SetPageTags lower d i names)) = revision_seq d"
  proof (cases "add_page_tags lower ?d0 i names")
    case (Inl e)
    then show ?thesis by (simp add: SetPageTags_def)
  next
    case (Inr d')
    from add_page_tags_other [OF this] Inr show ?thesis by (simp add: SetPageTags_def)
  qed
  then show "pages (snd (SetPageTags lower d i names)) = pages d"
    "revisions (snd (SetPageTags lower d i names)) = revisions d"
    "page_seq (snd (SetPageTags lower d i names)) = page_seq d"
    "revision_seq (snd (SetPageTags lower d i names)) = revision_seq d" by simp_all
qed


lemma CreateRevision_ok:
  assumes "\<exists>q\<in>set (pages d). page_id q = rev_page_id v"
  shows "snd (CreateRevision now d v) =
     d\<lparr>revisions := revisions d @ [v\<lparr>rev_created_at := now, rev_id := revision_seq d + 1\<rparr>],
       revision_seq := revision_seq d + 1\<rparr>"
  using assms by (simp add: CreateRevision_def Let_def)

text \<open>The outcomes of \<open>CreatePage\<close>.\<close>

lemma CreatePage_unfold:
  "CreatePage lower render now d authorID input =
     (let slug = create_slug input
      in if slug = [] then (Inl ErrInvalidSlug, d)
         else let title = TrimSpace (pc_title input)
         in if title = [] then (Inl ErrInvalidTitle, d)
         else case GetPageBySlug d slug of
           Some existing \<Rightarrow> (Inl ErrPageExists, d)
         | None \<Rightarrow>
            (case (if Contains slug (CHR ''/'')
                   then ensureParentPages render now d authorID slug else (Inr None, d)) of
               (Inl e, d1) \<Rightarrow> (Inl e, d1)
             | (Inr parentID, d1) \<Rightarrow>
                (case render (pc_content input) of
                   None \<Rightarrow> (Inl ErrRender, d1)
                 | Some contentHTML \<Rightarrow>
                    (case DB_CreatePage now d1
                            \<lparr>page_id = 0, page_slug = slug, page_title = title,
                             page_content = pc_content input,
                             page_content_html = contentHTML,
                             page_author_id = authorID, page_parent_id = parentID,
                             page_is_published = True, page_created_at = 0,
                             page_updated_at = 0, page_published_at = None\<rparr> of
                       (Inl e, d2) \<Rightarrow> (Inl e, d2)
                     | (Inr page, d2) \<Rightarrow>
                         let d3 = snd (CreateRevision now d2
                                    \<lparr>rev_id = 0, rev_page_id = page_id page,
                                     rev_content = pc_content input,
                                     rev_author_id = authorID,
                                     rev_comment = ''Initial version'',
                                     rev_created_at = 0\<rparr>);
                             d4 = (if length (pc_tags input) > 0
                                   then snd (SetPageTags lower d3 (page_id page) (pc_tags input))
                                   else d3)
                         in (Inr page, d4)))))"
  unfolding CreatePage_def create_slug_def Let_def ..

lemma CreatePage_early:
  "create_slug input = [] \<Longrightarrow> CreatePage lower render now d a input = (Inl ErrInvalidSlug, d)"
  "create_slug input \<noteq> [] \<Longrightarrow> TrimSpace (pc_title input) = [] \<Longrightarrow>
     CreatePage lower render now d a input = (Inl ErrInvalidTitle, d)"
  by (simp_all add: CreatePage_unfold Let_def)

lemma CreatePage_conflict:
  assumes "create_slug input \<noteq> []" "TrimSpace (pc_title input) \<noteq> []"
    "slug_taken d None (create_slug input)"
  shows "CreatePage lower render now d a input = (Inl ErrPageExists, d)"
proof -
  have "GetPageBySlug d (create_slug input) \<noteq> None"
    using assms(3) by (simp add: GetPageBySlug_None_iff)
  then obtain existing where "GetPageBySlug d (create_slug input) = Some existing" by blast
  then show ?thesis using assms(1,2) by (simp add: CreatePage_unfold Let_def)
qed

lemma CreatePage_late:
  assumes "create_slug input \<noteq> []" "TrimSpace (pc_title input) \<noteq> []"
    "\<not> slug_taken d None (create_slug input)"
    and e: "(if Contains (create_slug input) (CHR ''/'')
          then ensureParentPages render now d a (create_slug input) else (Inr None, d)) = (o1, d1)"
  shows "CreatePage lower render now d a input =
     (case o1 of Inl e \<Rightarrow> (Inl e, d1)
      | Inr parentID \<Rightarrow>
         (case render (pc_content input) of None \<Rightarrow> (Inl ErrRender, d1)
          | Some contentHTML \<Rightarrow>
             (case DB_CreatePage now d1
                     \<lparr>page_id = 0, page_slug = create_slug input, page_title = TrimSpace (pc_title input),
                      page_content = pc_content input, page_content_html = contentHTML,
                      page_author_id = a, page_parent_id = parentID,
                      page_is_published = True, page_created_at = 0,
                      page_updated_at = 0, page_published_at = None\<rparr> of
                (Inl e, d2) \<Rightarrow> (Inl e, d2)
              | (Inr page, d2) \<Rightarrow>
                  (Inr page,
                   let d3 = snd (CreateRevision now d2
                             \<lparr>rev_id = 0, rev_page_id = page_id page,
                              rev_content = pc_content input, rev_author_id = a,
                              rev_comment = ''Initial version'', rev_created_at = 0\<rparr>)
                   in if length (pc_tags input) > 0
                      then snd (SetPageTags lower d3 (page_id page) (pc_tags input)) else d3))))"
proof -
  have g: "GetPageBySlug d (create_slug input) = None"
    using assms(3) by (simp add: GetPageBySlug_None_iff)
  show ?thesis
    unfolding CreatePage_unfold Let_def
    using assms(1,2) by (simp only: g e if_False option.case prod.case)
qed

lemma DB_CreatePage_error: "DB_CreatePage now d page = (Inl e, d') \<Longrightarrow> e = ErrConstraint"
  by (auto simp: DB_CreatePage_def Let_def split: if_splits)

lemma ensureParentPages_loop_error:
  "ensureParentPages_loop render now authorID parts is par d = (Inl e, d') \<Longrightarrow> e = ErrConstraint"
proof (induction "is" arbitrary: par d)
  case Nil
  then show ?case by simp
next
  case (Cons i "is")
  show ?case
  proof (cases "GetPageBySlug d (Join (take (i + 1) parts) (CHR ''/''))")
    case (Some existing)
    with Cons.prems show ?thesis by (auto simp: Let_def intro: Cons.IH)
  next
    case None
    with Cons.prems show ?thesis
      by (auto simp: Let_def split: prod.splits sum.splits dest: DB_CreatePage_error intro: Cons.IH)
  qed
qed

lemma ensureParentPages_error:
  "ensureParentPages render now d authorID slug = (Inl e, d') \<Longrightarrow> e = ErrConstraint"
  by (auto simp: ensureParentPages_def Let_def split: if_splits dest: ensureParentPages_loop_error)

lemma CreatePage_success:
  assumes ok: "CreatePage lower render now d a input = (Inr page, d')"
  shows "create_slug input \<noteq> [] \<and> TrimSpace (pc_title input) \<noteq> [] \<and>
         \<not> slug_taken d None (create_slug input) \<and>
         (\<exists>new html parentID.
            pages d' = pages d @ new @ [page] \<and>
            (\<forall>p\<in>set new. placeholder now a p) \<and>
            map page_id new = map (\<lambda>k. page_seq d + 1 + int k) [0..<length new] \<and>
            (\<not> Contains (create_slug input) (CHR ''/'') \<longrightarrow> new = []) \<and>
            render (pc_content input) = Some html \<and>
            page = \<lparr>page_id = page_seq d + 1 + int (length new), page_slug = create_slug input,
                    page_title = TrimSpace (pc_title input), page_content = pc_content input,
                    page_content_html = html, page_author_id = a, page_parent_id = parentID,
                    page_is_published = True, page_created_at = now, page_updated_at = now,
                    page_published_at = Some now\<rparr> \<and>
            revisions d' = revisions d @
              [\<lparr>rev_id = revision_seq d + 1, rev_page_id = page_id page,
                rev_content = pc_content input, rev_author_id = a,
                rev_comment = ''Initial version'', rev_created_at = now\<rparr>] \<and>
            page_seq d' = page_seq d + 1 + int (length new) \<and>
            revision_seq d' = revision_seq d + 1)"
proof -
  have s: "create_slug input \<noteq> []"
    using ok CreatePage_early(1) [where lower = lower and input = input and render = render and now = now and d = d and a = a] by auto
  have t: "TrimSpace (pc_title input) \<noteq> []"
    using ok s CreatePage_early(2) [where lower = lower and input = input and render = render and now = now and d = d and a = a] by auto
  have u: "\<not> slug_taken d None (create_slug input)"
    using ok s t CreatePage_conflict [where lower = lower and input = input and render = render and now = now and d = d and a = a] by auto
  obtain o1 d1 where e: "(if Contains (create_slug input) (CHR ''/'')
          then ensureParentPages render now d a (create_slug input) else (Inr None, d)) = (o1, d1)"
    by (cases "if Contains (create_slug input) (CHR ''/'')
          then ensureParentPages render now d a (create_slug input) else (Inr None, d)")
  note late = CreatePage_late [OF s t u e, of ]
  from ok late obtain parentID where o1: "o1 = Inr parentID" by (cases o1) auto
  from ok late o1 obtain html where html: "render (pc_content input) = Some html"
    by (cases "render (pc_content input)") auto
  let ?p0 = "\<lparr>page_id = 0, page_slug = create_slug input, page_title = TrimSpace (pc_title input),
      page_content = pc_content input, page_content_html = html,
      page_author_id = a, page_parent_id = parentID,
      page_is_published = True, page_created_at = 0,
      page_updated_at = 0, page_published_at = None\<rparr>"
  obtain o2 d2 where c: "DB_CreatePage now d1 ?p0 = (o2, d2)" by (cases "DB_CreatePage now d1 ?p0")
  from ok late o1 html c have o2: "o2 = Inr page" by (cases o2) auto
  let ?d3 = "snd (CreateRevision now d2
      \<lparr>rev_id = 0, rev_page_id = page_id page, rev_content = pc_content input, rev_author_id = a,
       rev_comment = ''Initial version'', rev_created_at = 0\<rparr>)"
  have d': "d' = (if length (pc_tags input) > 0 then snd (SetPageTags lower ?d3 (page_id page) (pc_tags input)) else ?d3)"
    using ok late o1 html c o2 by (simp add: Let_def)
  from c o2 have d2: "d2 = d1\<lparr>pages := pages d1 @ [page], page_seq := page_seq d1 + 1\<rparr>"
    and page: "page = ?p0\<lparr>page_created_at := now, page_updated_at := now,
        page_published_at := (if page_is_published ?p0 then Some now else page_published_at ?p0),
        page_id := page_seq d1 + 1\<rparr>"
    by (auto dest: DB_CreatePage_Inr)
  have "\<exists>q\<in>set (pages d2). page_id q = page_id page" using d2 by simp
  then have d3: "?d3 = d2\<lparr>revisions := revisions d2 @
      [\<lparr>rev_id = revision_seq d2 + 1, rev_page_id = page_id page, rev_content = pc_content input,
        rev_author_id = a, rev_comment = ''Initial version'', rev_created_at = now\<rparr>],
      revision_seq := revision_seq d2 + 1\<rparr>"
    by (subst CreateRevision_ok) simp_all
  have d'_tabs: "pages d' = pages ?d3" "revisions d' = revisions ?d3" "page_seq d' = page_seq ?d3"
    "revision_seq d' = revision_seq ?d3"
    using d' by (simp_all add: SetPageTags_other)
  obtain new where new: "d1 = d\<lparr>pages := pages d @ new, page_seq := page_seq d + int (length new)\<rparr>"
    "map page_id new = map (\<lambda>k. page_seq d + 1 + int k) [0..<length new]"
    "\<forall>p\<in>set new. placeholder now a p"
    "\<not> Contains (create_slug input) (CHR ''/'') \<longrightarrow> new = []"
  proof (cases "Contains (create_slug input) (CHR ''/'')")
    case True
    with e have "ensureParentPages render now d a (create_slug input) = (o1, d1)" by simp
    from ensureParentPages_props [OF this] True that show ?thesis by blast
  next
    case False
    with e have "d1 = d" by simp
    with False that [of "[]"] show ?thesis by simp
  qed
  have "pages d' = pages d @ new @ [page]" using d'_tabs d3 d2 new(1) by simp
  moreover have "revisions d' = revisions d @
      [\<lparr>rev_id = revision_seq d + 1, rev_page_id = page_id page, rev_content = pc_content input,
        rev_author_id = a, rev_comment = ''Initial version'', rev_created_at = now\<rparr>]"
    using d'_tabs d3 d2 new(1) by simp
  moreover have "page_seq d' = page_seq d + 1 + int (length new)" "revision_seq d' = revision_seq d + 1"
    using d'_tabs d3 d2 new(1) by simp_all
  moreover have "page = \<lparr>page_id = page_seq d + 1 + int (length new), page_slug = create_slug input,
      page_title = TrimSpace (pc_title input), page_content = pc_content input,
      page_content_html = html, page_author_id = a, page_parent_id = parentID,
      page_is_published = True, page_created_at = now, page_updated_at = now,
      page_published_at = Some now\<rparr>"
    using page new(1) by simp
  ultimately show ?thesis using s t u new(2,3,4) html by blast
qed

lemma CreatePage_error_unchanged:
  assumes "CreatePage lower render now d a input = (Inl e, d')"
    and "e = ErrInvalidSlug \<or> e = ErrInvalidTitle \<or> e = ErrPageExists"
  shows "d' = d"
proof -
  consider "create_slug input = []" | "create_slug input \<noteq> []" "TrimSpace (pc_title input) = []"
    | "create_slug input \<noteq> []" "TrimSpace (pc_title input) \<noteq> []" "slug_taken d None (create_slug input)"
    | "create_slug input \<noteq> []" "TrimSpace (pc_title input) \<noteq> []" "\<not> slug_taken d None (create_slug input)"
    by blast
  then show ?thesis
  proof cases
    case 1
    with assms(1) show ?thesis by (simp add: CreatePage_early)
  next
    case 2
    with assms(1) show ?thesis by (simp add: CreatePage_early)
  next
    case 3
    with assms(1) show ?thesis by (simp add: CreatePage_conflict)
  next
    case 4
    obtain o1 d1 where e: "(if Contains (create_slug input) (CHR ''/'')
          then ensureParentPages render now d a (create_slug input) else (Inr None, d)) = (o1, d1)"
      by (cases "if Contains (create_slug input) (CHR ''/'')
          then ensureParentPages render now d a (create_slug input) else (Inr None, d)")
    have "e = ErrConstraint \<or> e = ErrRender"
    proof (cases o1)
      case (Inl e1)
      then have "e1 = ErrConstraint" using e by (auto split: if_splits dest: ensureParentPages_error)
      with Inl assms(1) show ?thesis by (simp add: CreatePage_late [OF 4 e])
    next
      case (Inr parentID)
      with assms(1) show ?thesis
        by (auto simp: CreatePage_late [OF 4 e] split: option.splits prod.splits sum.splits
            dest: DB_CreatePage_error)
    qed
    with assms(2) show ?thesis by auto
  qed
qed











text \<open>The store with two pages is what two calls of \<open>CreatePage\<close> make of the empty store.\<close>

lemma linux_db_created:
  "snd (CreatePage ToLower plain_render 11
         (snd (CreatePage ToLower plain_render 10 empty_db 7 (new_page ''linux'' ''Linux'' ''L'')))
         7 (new_page ''linux/ubuntu'' ''Ubuntu'' ''U'')) = linux_db"
  by code_simp

text \<open>
  Claim C6, as stated, has exactly one page inserted by a successful create. A create
  with the slug \<open>a/b\<close> on the empty store succeeds and inserts two pages: the
  placeholder \<open>a\<close> and the page \<open>a/b\<close>.
\<close>

theorem create_one_page_counterexample:
  "(case CreatePage ToLower plain_render 10 empty_db 7 (new_page ''a/b'' ''B'' ''text'') of
      (Inr page, d') \<Rightarrow> map page_slug (pages d') = [''a'', ''a/b''] \<and> pages empty_db = []
    | (Inl e, d') \<Rightarrow> False)"
  by code_simp

text \<open>
  Claim C6, amended: \<open>CreatePage\<close> returns \<open>ErrInvalidSlug\<close> when the normalized slug
  is empty, \<open>ErrInvalidTitle\<close> when the trimmed title is empty, and \<open>ErrPageExists\<close>
  when a page has the slug up to the case of ASCII letters; with each of these errors
  the store is unchanged. On success the store has gained the page, before it the
  placeholder parents that were missing (none when the slug has no slash), and exactly
  one revision, with the comment \<open>Initial version\<close> and the content of the page.
\<close>

theorem create_page_outcomes:
  "(create_slug input = [] \<longrightarrow>
      CreatePage lower render now d a input = (Inl ErrInvalidSlug, d)) \<and>
   (create_slug input \<noteq> [] \<and> TrimSpace (pc_title input) = [] \<longrightarrow>
      CreatePage lower render now d a input = (Inl ErrInvalidTitle, d)) \<and>
   (create_slug input \<noteq> [] \<and> TrimSpace (pc_title input) \<noteq> [] \<and>
    (\<exists>q\<in>set (pages d). nocase_eq (page_slug q) (create_slug input)) \<longrightarrow>
      CreatePage lower render now d a input = (Inl ErrPageExists, d)) \<and>
   (CreatePage lower render now d a input = (Inl e, d') \<and>
    (e = ErrInvalidSlug \<or> e = ErrInvalidTitle \<or> e = ErrPageExists) \<longrightarrow> d' = d) \<and>
   (CreatePage lower render now d a input = (Inr page, d') \<longrightarrow>
      (\<exists>new. pages d' = pages d @ new @ [page] \<and>
             (\<forall>p\<in>set new. placeholder now a p) \<and>
             (\<not> Contains (create_slug input) (CHR ''/'') \<longrightarrow> new = [])) \<and>
      page_slug page = create_slug input \<and> page_content page = pc_content input \<and>
      revisions d' = revisions d @
        [\<lparr>rev_id = revision_seq d + 1, rev_page_id = page_id page,
          rev_content = page_content page, rev_author_id = a,
          rev_comment = ''Initial version'', rev_created_at = now\<rparr>])"
proof -
  have "slug_taken d None s \<longleftrightarrow> (\<exists>q\<in>set (pages d). nocase_eq (page_slug q) s)" for s
    by (simp add: slug_taken_def)
  then have 3: "create_slug input \<noteq> [] \<and> TrimSpace (pc_title input) \<noteq> [] \<and>
    (\<exists>q\<in>set (pages d). nocase_eq (page_slug q) (create_slug input)) \<longrightarrow>
      CreatePage lower render now d a input = (Inl ErrPageExists, d)"
    using CreatePage_conflict [where lower = lower and input = input and render = render and now = now and d = d and a = a] by blast
  have 5: "CreatePage lower render now d a input = (Inr page, d') \<longrightarrow>
      (\<exists>new. pages d' = pages d @ new @ [page] \<and>
             (\<forall>p\<in>set new. placeholder now a p) \<and>
             (\<not> Contains (create_slug input) (CHR ''/'') \<longrightarrow> new = [])) \<and>
      page_slug page = create_slug input \<and> page_content page = pc_content input \<and>
      revisions d' = revisions d @
        [\<lparr>rev_id = revision_seq d + 1, rev_page_id = page_id page,
          rev_content = page_content page, rev_author_id = a,
          rev_comment = ''Initial version'', rev_created_at = now\<rparr>]"
  proof
    assume ok: "CreatePage lower render now d a input = (Inr page, d')"
    from CreatePage_success [OF ok] obtain new html parentID where
      "pages d' = pages d @ new @ [page]" "\<forall>p\<in>set new. placeholder now a p"
      "\<not> Contains (create_slug input) (CHR ''/'') \<longrightarrow> new = []"
      and page: "page = \<lparr>page_id = page_seq d + 1 + int (length new), page_slug = create_slug input,
                    page_title = TrimSpace (pc_title input), page_content = pc_content input,
                    page_content_html = html, page_author_id = a, page_parent_id = parentID,
                    page_is_published = True, page_created_at = now, page_updated_at = now,
                    page_published_at = Some now\<rparr>"
      and rev: "revisions d' = revisions d @
              [\<lparr>rev_id = revision_seq d + 1, rev_page_id = page_id page,
                rev_content = pc_content input, rev_author_id = a,
                rev_comment = ''Initial version'', rev_created_at = now\<rparr>]"
      by blast
    moreover have "page_slug page = create_slug input" "page_content page = pc_content input"
      by (subst page, simp)+
    ultimately show "(\<exists>new. pages d' = pages d @ new @ [page] \<and>
             (\<forall>p\<in>set new. placeholder now a p) \<and>
             (\<not> Contains (create_slug input) (CHR ''/'') \<longrightarrow> new = [])) \<and>
      page_slug page = create_slug input \<and> page_content page = pc_content input \<and>
      revisions d' = revisions d @
        [\<lparr>rev_id = revision_seq d + 1, rev_page_id = page_id page,
          rev_content = page_content page, rev_author_id = a,
          rev_comment = ''Initial version'', rev_created_at = now\<rparr>]"
      by auto
  qed
  show ?thesis
    using CreatePage_early [where lower = lower and input = input and render = render and now = now and d = d and a = a] 3 5
      CreatePage_error_unchanged [where lower = lower and input = input and render = render and now = now and d = d and a = a and e = e and d' = d']
    by blast
qed

theorem create_page_outcomes_witness:
  "CreatePage ToLower plain_render 10 empty_db 7 (new_page ''!!'' ''T'' ''x'') = (Inl ErrInvalidSlug, empty_db) \<and>
   CreatePage ToLower plain_render 10 empty_db 7 (new_page ''a'' ''  '' ''x'') = (Inl ErrInvalidTitle, empty_db) \<and>
   CreatePage ToLower plain_render 12 linux_db 7 (new_page ''LINUX'' ''T'' ''x'') = (Inl ErrPageExists, linux_db) \<and>
   revisions (snd (CreatePage ToLower plain_render 12 linux_db 7 (new_page ''bsd'' ''BSD'' ''x''))) =
     revisions linux_db @
       [\<lparr>rev_id = 3, rev_page_id = 3, rev_content = ''x'', rev_author_id = 7,
         rev_comment = ''Initial version'', rev_created_at = 12\<rparr>]"
proof -
  have 1: "create_slug (new_page ''!!'' ''T'' ''x'') = []" by code_simp
  have 2: "create_slug (new_page ''a'' ''  '' ''x'') \<noteq> [] \<and>
      TrimSpace (pc_title (new_page ''a'' ''  '' ''x'')) = []" by code_simp
  have 3: "create_slug (new_page ''LINUX'' ''T'' ''x'') \<noteq> [] \<and>
      TrimSpace (pc_title (new_page ''LINUX'' ''T'' ''x'')) \<noteq> [] \<and>
      (\<exists>q\<in>set (pages linux_db). nocase_eq (page_slug q) (create_slug (new_page ''LINUX'' ''T'' ''x'')))"
    by code_simp
  let ?X = "CreatePage ToLower plain_render 12 linux_db 7 (new_page ''bsd'' ''BSD'' ''x'')"
  have "fst ?X = Inr (projr (fst ?X))" by code_simp
  then have 4: "?X = (Inr (projr (fst ?X)), snd ?X)" by (metis prod.collapse)
  have 5: "revision_seq linux_db + 1 = 3 \<and> page_id (projr (fst ?X)) = 3 \<and>
      page_content (projr (fst ?X)) = ''x''" by code_simp
  have "CreatePage ToLower plain_render 10 empty_db 7 (new_page ''!!'' ''T'' ''x'') = (Inl ErrInvalidSlug, empty_db)"
    using create_page_outcomes [of "new_page ''!!'' ''T'' ''x''" ToLower plain_render 10 empty_db 7] 1 by blast
  moreover have "CreatePage ToLower plain_render 10 empty_db 7 (new_page ''a'' ''  '' ''x'') = (Inl ErrInvalidTitle, empty_db)"
    using create_page_outcomes [of "new_page ''a'' ''  '' ''x''" ToLower plain_render 10 empty_db 7] 2 by blast
  moreover have "CreatePage ToLower plain_render 12 linux_db 7 (new_page ''LINUX'' ''T'' ''x'') = (Inl ErrPageExists, linux_db)"
    using create_page_outcomes [of "new_page ''LINUX'' ''T'' ''x''" ToLower plain_render 12 linux_db 7] 3 by blast
  moreover have "revisions (snd ?X) = revisions linux_db @
        [\<lparr>rev_id = revision_seq linux_db + 1, rev_page_id = page_id (projr (fst ?X)),
          rev_content = page_content (projr (fst ?X)), rev_author_id = 7,
          rev_comment = ''Initial version'', rev_created_at = 12\<rparr>]"
    using create_page_outcomes [of "new_page ''bsd'' ''BSD'' ''x''" ToLower plain_render 12 linux_db 7
        ErrInvalidSlug "snd ?X" "projr (fst ?X)"] 4 by blast
  ultimately show ?thesis using 5 by simp
qed



section \<open>The descendants of a page\<close>

lemma parent_rel_iff:
  "(c, i) \<in> parent_rel ps \<longleftrightarrow> (\<exists>p\<in>set ps. page_id p = c \<and> page_parent_id p = Some i)"
proof
  assume "(c, i) \<in> parent_rel ps"
  then obtain p where "p \<in> set ps" "(c, i) \<in> set (case page_parent_id p of None \<Rightarrow> [] | Some i \<Rightarrow> [(page_id p, i)])"
    by (auto simp: parent_rel_def)
  then show "\<exists>p\<in>set ps. page_id p = c \<and> page_parent_id p = Some i"
    by (cases "page_parent_id p") auto
next
  assume "\<exists>p\<in>set ps. page_id p = c \<and> page_parent_id p = Some i"
  then show "(c, i) \<in> parent_rel ps" by (force simp: parent_rel_def)
qed

lemma finite_parent_rel: "finite (parent_rel ps)"
  unfolding parent_rel_def by (rule finite_set)

lemma fst_children_rows: "fst ` set (children_rows ps i) = {c. (c, i) \<in> parent_rel ps}"
  by (auto simp: children_rows_def parent_rel_iff image_iff)

lemma descendants_loop_Nil: "descendants_loop ps [] acc = Some acc"
  by (subst descendants_loop.simps) simp

lemma descendants_loop_Cons:
  "descendants_loop ps (row # rest) acc =
     descendants_loop ps (rest @ children_rows ps (fst row)) (acc @ [row])"
  by (subst descendants_loop.simps) simp

lemma below_Nil [simp]: "below ps [] = {}"
  by (simp add: below_def)

lemma below_append: "below ps (q @ q') = below ps q \<union> below ps q'"
  by (auto simp: below_def)

lemma below_single: "below ps [y] = insert y (below ps (children_rows ps (fst y)))"
proof -
  have "(x, y) \<in> (row_rel ps)\<^sup>* \<longleftrightarrow>
      x = y \<or> (\<exists>c\<in>set (children_rows ps (fst y)). (x, c) \<in> (row_rel ps)\<^sup>*)" for x
  proof
    assume "(x, y) \<in> (row_rel ps)\<^sup>*"
    then have "x = y \<or> (x, y) \<in> (row_rel ps)\<^sup>+" by (auto simp: rtrancl_eq_or_trancl)
    then show "x = y \<or> (\<exists>c\<in>set (children_rows ps (fst y)). (x, c) \<in> (row_rel ps)\<^sup>*)"
    proof
      assume "x = y" then show ?thesis ..
    next
      assume "(x, y) \<in> (row_rel ps)\<^sup>+"
      then obtain c where "(x, c) \<in> (row_rel ps)\<^sup>*" "(c, y) \<in> row_rel ps"
        using tranclD2 by metis
      then show ?thesis by (auto simp: row_rel_def)
    qed
  next
    assume "x = y \<or> (\<exists>c\<in>set (children_rows ps (fst y)). (x, c) \<in> (row_rel ps)\<^sup>*)"
    then show "(x, y) \<in> (row_rel ps)\<^sup>*"
    proof
      assume "x = y" then show ?thesis by simp
    next
      assume "\<exists>c\<in>set (children_rows ps (fst y)). (x, c) \<in> (row_rel ps)\<^sup>*"
      then obtain c where c: "(x, c) \<in> (row_rel ps)\<^sup>*" "c \<in> set (children_rows ps (fst y))" by blast
      then have "(c, y) \<in> row_rel ps" by (simp add: row_rel_def)
      with c(1) show ?thesis by (rule rtrancl_into_rtrancl)
    qed
  qed
  then show ?thesis unfolding below_def by auto
qed

lemma below_Cons: "below ps (y # rest) = insert y (below ps (rest @ children_rows ps (fst y)))"
  using below_append [of ps "[y]" rest] below_append [of ps rest "children_rows ps (fst y)"]
  by (auto simp: below_single)

lemma descendants_loop_set:
  assumes run: "descendants_loop ps q acc = Some ds"
  shows "set ds = set acc \<union> below ps q"
proof (rule descendants_loop.raw_induct
    [where P = "\<lambda>ps q acc ds. set ds = set acc \<union> below ps q", OF _ run])
  fix loop ps q acc ds
  assume IH: "\<And>ps q acc ds. loop ps q acc = Some ds \<Longrightarrow> set ds = set acc \<union> below ps q"
    and step: "(case q of [] \<Rightarrow> Some acc
        | row # rest \<Rightarrow> loop ps (rest @ children_rows ps (fst row)) (acc @ [row])) = Some ds"
  show "set ds = set acc \<union> below ps q"
  proof (cases q)
    case Nil
    with step show ?thesis by simp
  next
    case (Cons y rest)
    with step have "loop ps (rest @ children_rows ps (fst y)) (acc @ [y]) = Some ds" by simp
    then have "set ds = set (acc @ [y]) \<union> below ps (rest @ children_rows ps (fst y))"
      by (rule IH)
    then show ?thesis by (simp add: Cons below_Cons)
  qed
qed

text \<open>A run that ends has started from rows in the well-founded part of the parent links.\<close>

lemma descendants_loop_acc:
  assumes run: "descendants_loop ps q acc = Some ds"
  shows "\<forall>y\<in>set q. fst y \<in> Wellfounded.acc (parent_rel ps)"
proof (rule descendants_loop.raw_induct
    [where P = "\<lambda>ps q acc ds. \<forall>y\<in>set q. fst y \<in> Wellfounded.acc (parent_rel ps)", OF _ run])
  fix loop ps q acc ds
  assume IH: "\<And>ps q acc ds. loop ps q acc = Some ds \<Longrightarrow>
      \<forall>y\<in>set q. fst y \<in> Wellfounded.acc (parent_rel ps)"
    and step: "(case q of [] \<Rightarrow> Some acc
        | row # rest \<Rightarrow> loop ps (rest @ children_rows ps (fst row)) (acc @ [row])) = Some ds"
  show "\<forall>y\<in>set q. fst y \<in> Wellfounded.acc (parent_rel ps)"
  proof (cases q)
    case Nil
    then show ?thesis by simp
  next
    case (Cons y rest)
    with step have "loop ps (rest @ children_rows ps (fst y)) (acc @ [y]) = Some ds" by simp
    then have ih: "\<forall>z\<in>set (rest @ children_rows ps (fst y)). fst z \<in> Wellfounded.acc (parent_rel ps)"
      by (rule IH)
    have "fst y \<in> Wellfounded.acc (parent_rel ps)"
    proof (rule accI)
      fix c assume "(c, fst y) \<in> parent_rel ps"
      then have "c \<in> fst ` set (children_rows ps (fst y))" by (simp add: fst_children_rows)
      with ih show "c \<in> Wellfounded.acc (parent_rel ps)" by auto
    qed
    with ih show ?thesis by (simp add: Cons)
  qed
qed

lemma acc_not_on_cycle:
  assumes "x \<in> Wellfounded.acc r"
  shows "(x, x) \<notin> r\<^sup>+"
  using assms
proof (induction x rule: acc_induct_rule)
  fix x
  assume "x \<in> Wellfounded.acc r" and IH: "\<And>y. (y, x) \<in> r \<Longrightarrow> (y, y) \<notin> r\<^sup>+"
  show "(x, x) \<notin> r\<^sup>+"
  proof
    assume "(x, x) \<in> r\<^sup>+"
    then obtain z where z: "(x, z) \<in> r\<^sup>*" "(z, x) \<in> r" by (auto dest: tranclD2)
    from z(2) z(1) have "(z, z) \<in> r\<^sup>+" by (rule rtrancl_into_trancl2)
    with IH [OF z(2)] show False ..
  qed
qed

text \<open>The children of a page that lies on a cycle below it hold a row outside the well-founded part.\<close>

lemma cycle_below_bad_child:
  assumes "\<not> acyclic (links_below ps i)"
  shows "\<exists>k. (k, i) \<in> parent_rel ps \<and> k \<notin> Wellfounded.acc (parent_rel ps)"
proof -
  let ?r = "parent_rel ps"
  from assms obtain c where c: "(c, c) \<in> (links_below ps i)\<^sup>+" by (auto simp: acyclic_def)
  have sub: "links_below ps i \<subseteq> ?r" by (auto simp: links_below_def)
  have cyc: "(c, c) \<in> ?r\<^sup>+" using c sub by (rule trancl_mono)
  from c obtain p where "(c, p) \<in> links_below ps i" by (auto dest: tranclD)
  then have "(c, p) \<in> ?r" "(p, i) \<in> ?r\<^sup>*" by (auto simp: links_below_def)
  then have "(c, i) \<in> ?r\<^sup>+" by auto
  then obtain k where k: "(c, k) \<in> ?r\<^sup>*" "(k, i) \<in> ?r" by (auto dest: tranclD2)
  have "k \<notin> Wellfounded.acc ?r"
  proof
    assume "k \<in> Wellfounded.acc ?r"
    then have "c \<in> Wellfounded.acc ?r" using k(1) by (rule acc_downwards)
    then have "(c, c) \<notin> ?r\<^sup>+" by (rule acc_not_on_cycle)
    with cyc show False by simp
  qed
  with k(2) show ?thesis by blast
qed

lemma GetAllDescendants_acyclic:
  assumes "GetAllDescendants d i = Some ds"
  shows "acyclic (links_below (pages d) i)"
proof (rule ccontr)
  assume "\<not> acyclic (links_below (pages d) i)"
  then obtain k where k: "(k, i) \<in> parent_rel (pages d)" "k \<notin> Wellfounded.acc (parent_rel (pages d))"
    using cycle_below_bad_child by blast
  then have "k \<in> fst ` set (children_rows (pages d) i)" by (simp add: fst_children_rows)
  moreover have "\<forall>y\<in>set (children_rows (pages d) i). fst y \<in> Wellfounded.acc (parent_rel (pages d))"
    using assms unfolding GetAllDescendants_def by (rule descendants_loop_acc)
  ultimately show False using k(2) by auto
qed

lemma ids_below: "fst ` below ps q = {c. \<exists>y\<in>set q. (c, fst y) \<in> (parent_rel ps)\<^sup>*}"
proof (intro set_eqI iffI)
  fix c assume "c \<in> fst ` below ps q"
  then obtain x y where xy: "fst x = c" "y \<in> set q" "(x, y) \<in> (row_rel ps)\<^sup>*"
    by (auto simp: below_def)
  from xy(3) have "(fst x, fst y) \<in> (parent_rel ps)\<^sup>*"
  proof (induction rule: converse_rtrancl_induct)
    case base
    show ?case by simp
  next
    case (step u v)
    from step(1) have "fst u \<in> fst ` set (children_rows ps (fst v))" by (auto simp: row_rel_def)
    then have "(fst u, fst v) \<in> parent_rel ps" by (simp add: fst_children_rows)
    then show ?case using step(3) by (rule converse_rtrancl_into_rtrancl)
  qed
  with xy show "c \<in> {c. \<exists>y\<in>set q. (c, fst y) \<in> (parent_rel ps)\<^sup>*}" by auto
next
  fix c assume "c \<in> {c. \<exists>y\<in>set q. (c, fst y) \<in> (parent_rel ps)\<^sup>*}"
  then obtain y where y: "y \<in> set q" "(c, fst y) \<in> (parent_rel ps)\<^sup>*" by auto
  from y(2) have "\<exists>x. fst x = c \<and> (x, y) \<in> (row_rel ps)\<^sup>*"
  proof (induction rule: converse_rtrancl_induct)
    case base
    show ?case by (intro exI [of _ y]) simp
  next
    case (step c m)
    then obtain x' where x': "fst x' = m" "(x', y) \<in> (row_rel ps)\<^sup>*" by blast
    from step(1) have "c \<in> fst ` set (children_rows ps m)" by (simp add: fst_children_rows)
    then obtain x where x: "fst x = c" "x \<in> set (children_rows ps m)" by auto
    then have "(x, x') \<in> row_rel ps" using x'(1) by (simp add: row_rel_def)
    then have "(x, y) \<in> (row_rel ps)\<^sup>*" using x'(2) by (rule converse_rtrancl_into_rtrancl)
    with x(1) show ?case by blast
  qed
  with y(1) show "c \<in> fst ` below ps q" by (force simp: below_def)
qed

lemma ids_below_children:
  "fst ` below ps (children_rows ps i) = {c. (c, i) \<in> (parent_rel ps)\<^sup>+}"
proof -
  have "(\<exists>y\<in>set (children_rows ps i). (c, fst y) \<in> (parent_rel ps)\<^sup>*) \<longleftrightarrow>
      (c, i) \<in> (parent_rel ps)\<^sup>+" for c
  proof
    assume "\<exists>y\<in>set (children_rows ps i). (c, fst y) \<in> (parent_rel ps)\<^sup>*"
    then obtain y where y: "y \<in> set (children_rows ps i)" "(c, fst y) \<in> (parent_rel ps)\<^sup>*" by blast
    from y(1) have "fst y \<in> fst ` set (children_rows ps i)" by simp
    then have "(fst y, i) \<in> parent_rel ps" by (simp add: fst_children_rows)
    with y(2) show "(c, i) \<in> (parent_rel ps)\<^sup>+" by (rule rtrancl_into_trancl1)
  next
    assume "(c, i) \<in> (parent_rel ps)\<^sup>+"
    then obtain k where k: "(c, k) \<in> (parent_rel ps)\<^sup>*" "(k, i) \<in> parent_rel ps"
      using tranclD2 by metis
    from k(2) have "k \<in> fst ` set (children_rows ps i)" by (simp add: fst_children_rows)
    with k(1) show "\<exists>y\<in>set (children_rows ps i). (c, fst y) \<in> (parent_rel ps)\<^sup>*" by auto
  qed
  then show ?thesis by (simp add: ids_below)
qed

lemma trancl_into_links_below:
  assumes "(c, p) \<in> (parent_rel ps)\<^sup>+" "(p, i) \<in> (parent_rel ps)\<^sup>*"
  shows "(c, p) \<in> (links_below ps i)\<^sup>+"
  using assms
proof (induction rule: trancl_induct)
  case (base p)
  then have "(c, p) \<in> links_below ps i" by (simp add: links_below_def)
  then show ?case ..
next
  case (step m p)
  from step(2,4) have mp: "(m, p) \<in> links_below ps i" by (simp add: links_below_def)
  from step(2,4) have "(m, i) \<in> (parent_rel ps)\<^sup>*" by (rule converse_rtrancl_into_rtrancl)
  then have "(c, m) \<in> (links_below ps i)\<^sup>+" by (rule step(3))
  then show ?case using mp by (rule trancl_into_trancl)
qed

lemma finite_links_below: "finite (links_below ps i)"
proof -
  have "links_below ps i \<subseteq> parent_rel ps" by (auto simp: links_below_def)
  then show ?thesis using finite_parent_rel by (rule finite_subset)
qed

text \<open>Without a cycle below the page the query ends.\<close>

lemma descendants_loop_ends:
  assumes ac: "acyclic (links_below ps i)"
  shows "\<forall>y\<in>set q. (fst y, i) \<in> (parent_rel ps)\<^sup>+ \<Longrightarrow> \<exists>ds. descendants_loop ps q acc = Some ds"
proof -
  let ?W = "inv_image (links_below ps i) fst :: ((int \<times> string) \<times> (int \<times> string)) set"
  have "wf (links_below ps i)" using finite_links_below ac by (rule finite_acyclic_wf)
  then have "wf (mult ?W)" by (intro wf_mult wf_inv_image)
  then show "\<forall>y\<in>set q. (fst y, i) \<in> (parent_rel ps)\<^sup>+ \<Longrightarrow> \<exists>ds. descendants_loop ps q acc = Some ds"
  proof (induction "mset q" arbitrary: q acc rule: wf_induct_rule)
    case less
    show ?case
    proof (cases q)
      case Nil
      then show ?thesis by (simp add: descendants_loop_Nil)
    next
      case (Cons y rest)
      let ?q' = "rest @ children_rows ps (fst y)"
      have y: "(fst y, i) \<in> (parent_rel ps)\<^sup>+" using less.prems Cons by simp
      have kids: "\<forall>k\<in>set (children_rows ps (fst y)). (fst k, fst y) \<in> parent_rel ps"
        using fst_children_rows [of ps "fst y"] by auto
      have "(mset rest + mset (children_rows ps (fst y)), mset rest + {#y#}) \<in> mult ?W"
      proof (rule one_step_implies_mult)
        show "{#y#} \<noteq> {#}" by simp
        show "\<forall>k\<in>set_mset (mset (children_rows ps (fst y))). \<exists>j\<in>set_mset {#y#}. (k, j) \<in> ?W"
          using kids y by (auto simp: links_below_def dest: trancl_into_rtrancl)
      qed
      then have "(mset ?q', mset q) \<in> mult ?W" by (simp add: Cons)
      moreover have "\<forall>z\<in>set ?q'. (fst z, i) \<in> (parent_rel ps)\<^sup>+"
        using less.prems Cons kids y by (auto intro: trancl_into_trancl2)
      ultimately have "\<exists>ds. descendants_loop ps ?q' (acc @ [y]) = Some ds" by (rule less.hyps)
      then show ?thesis by (simp add: Cons descendants_loop_Cons)
    qed
  qed
qed

lemma GetAllDescendants_ends:
  assumes "acyclic (links_below (pages d) i)"
  shows "\<exists>ds. GetAllDescendants d i = Some ds"
  unfolding GetAllDescendants_def
proof (rule descendants_loop_ends [OF assms])
  show "\<forall>y\<in>set (children_rows (pages d) i). (fst y, i) \<in> (parent_rel (pages d))\<^sup>+"
    using fst_children_rows [of "pages d" i] by auto
qed

lemma GetAllDescendants_ids:
  assumes "GetAllDescendants d i = Some ds"
  shows "fst ` set ds = {c. (c, i) \<in> (parent_rel (pages d))\<^sup>+}" and "i \<notin> fst ` set ds"
proof -
  from assms have "set ds = below (pages d) (children_rows (pages d) i)"
    unfolding GetAllDescendants_def using descendants_loop_set by fastforce
  then show ids: "fst ` set ds = {c. (c, i) \<in> (parent_rel (pages d))\<^sup>+}"
    by (simp add: ids_below_children)
  have "acyclic (links_below (pages d) i)" using assms by (rule GetAllDescendants_acyclic)
  moreover have "(i, i) \<in> (links_below (pages d) i)\<^sup>+" if "(i, i) \<in> (parent_rel (pages d))\<^sup>+"
    using that by (rule trancl_into_links_below) simp
  ultimately have "(i, i) \<notin> (parent_rel (pages d))\<^sup>+" by (auto simp: acyclic_def)
  with ids show "i \<notin> fst ` set ds" by simp
qed






text \<open>The store with a cycle is what the service itself makes of a store with one page.\<close>

lemma cyclic_db_reached:
  "map_option snd
     (UpdatePage ToLower plain_render 11
        (snd (CreatePage ToLower plain_render 10 empty_db 7 (new_page ''a'' ''A'' ''x'')))
        1 7 (rename ''a/b/c'') ''move'') = Some cyclic_db"
  by code_simp

text \<open>
  Claim C9, as stated, has the query end on every store. On the store with the cycle
  between the pages 1 and 2 the query for the descendants of page 1 has no end.
\<close>

theorem descendants_cycle_counterexample: "GetAllDescendants cyclic_db 1 = None"
proof (rule ccontr)
  assume "GetAllDescendants cyclic_db 1 \<noteq> None"
  then obtain ds where ds: "GetAllDescendants cyclic_db 1 = Some ds" by blast
  have "(1, 2) \<in> parent_rel (pages cyclic_db)" "(2, 1) \<in> parent_rel (pages cyclic_db)"
    by (simp_all add: parent_rel_def cyclic_db_def)
  then have "(1, 1) \<in> (parent_rel (pages cyclic_db))\<^sup>+" by (rule trancl_into_trancl2 [OF _ r_into_trancl])
  then show False using GetAllDescendants_ids [OF ds] by blast
qed

text \<open>
  Claim C9, amended: the query for the descendants of a page ends exactly when no cycle
  of parent links lies among the page and its descendants; when it ends, the ids of its
  rows are exactly the ids from which a chain of parent links leads to the page, and the
  id of the page is not among them.
\<close>

theorem descendants_of_page:
  "(GetAllDescendants d i \<noteq> None \<longleftrightarrow> acyclic (links_below (pages d) i)) \<and>
   (GetAllDescendants d i = Some ds \<longrightarrow>
      fst ` set ds = {c. (c, i) \<in> (parent_rel (pages d))\<^sup>+} \<and> i \<notin> fst ` set ds)"
  using GetAllDescendants_ends [of d i] GetAllDescendants_acyclic [of d i]
    GetAllDescendants_ids [of d i ds]
  by blast

theorem descendants_of_page_witness:
  "GetAllDescendants linux_db 1 = Some [(2, ''linux/ubuntu'')] \<and>
   {c. (c, 1) \<in> (parent_rel (pages linux_db))\<^sup>+} = {2} \<and>
   acyclic (links_below (pages linux_db) 1)"
proof -
  have 1: "GetAllDescendants linux_db 1 = Some [(2, ''linux/ubuntu'')]" by code_simp
  from descendants_of_page [of linux_db 1 "[(2, ''linux/ubuntu'')]"] 1
  have "fst ` set [(2::int, ''linux/ubuntu'')] = {c. (c, 1) \<in> (parent_rel (pages linux_db))\<^sup>+}"
    and "acyclic (links_below (pages linux_db) 1)" by auto
  with 1 show ?thesis by simp
qed

section \<open>Updating pages\<close>

lemma UpdatePageSlug_Inr:
  "UpdatePageSlug now d i s = Inr d' \<Longrightarrow>
     d' = d\<lparr>pages := map (\<lambda>q. if page_id q = i
                               then q\<lparr>page_slug := s, page_updated_at := now\<rparr> else q) (pages d)\<rparr>"
  by (auto simp: UpdatePageSlug_def split: if_splits)

lemma DB_UpdatePage_Inr:
  "DB_UpdatePage now d page = Inr d' \<Longrightarrow>
     d' = d\<lparr>pages := map (\<lambda>q. if page_id q = page_id page
                       then q\<lparr>page_slug := page_slug page, page_title := page_title page,
                              page_content := page_content page,
                              page_content_html := page_content_html page,
                              page_parent_id := page_parent_id page,
                              page_is_published := page_is_published page,
                              page_updated_at := now,
                              page_published_at := page_published_at page\<rparr>
                       else q) (pages d)\<rparr>"
  by (auto simp: DB_UpdatePage_def split: if_splits)

text \<open>What the cascade leaves alone.\<close>

lemma cascade_frame:
  "cascade now old new ds acc d = (res, d') \<Longrightarrow>
     revisions d' = revisions d \<and> revision_seq d' = revision_seq d \<and> page_seq d' = page_seq d \<and>
     map page_id (pages d') = map page_id (pages d) \<and>
     map page_content (pages d') = map page_content (pages d)"
proof (induction ds arbitrary: acc d)
  case Nil
  then show ?case by simp
next
  case (Cons r ds)
  show ?case
  proof (cases "HasPrefix (snd r) (old @ ''/'')")
    case False
    with Cons.prems have "cascade now old new ds acc d = (res, d')" by simp
    then show ?thesis by (rule Cons.IH)
  next
    case True
    show ?thesis
    proof (cases "UpdatePageSlug now d (fst r) (new @ TrimPrefix (snd r) old)")
      case (Inl e)
      with True Cons.prems have "d' = d" by (simp add: Let_def)
      then show ?thesis by simp
    next
      case (Inr d1)
      with True Cons.prems have
        "cascade now old new ds (acc @ [\<lparr>old_slug = snd r, new_slug = new @ TrimPrefix (snd r) old\<rparr>]) d1
          = (res, d')" by (simp add: Let_def)
      from Cons.IH [OF this] UpdatePageSlug_Inr [OF Inr] show ?thesis
        by (simp add: comp_def if_distrib [of page_id] if_distrib [of page_content] cong: if_cong)
    qed
  qed
qed




lemma find_map_page_id:
  "(\<And>q. page_id (f q) = page_id q) \<Longrightarrow>
     find (\<lambda>p. page_id p = i) (map f ps) = map_option f (find (\<lambda>p. page_id p = i) ps)"
  by (induction ps) auto

lemma find_page_id_Some:
  "i \<in> set (map page_id ps) \<Longrightarrow> \<exists>p. find (\<lambda>p. page_id p = i) ps = Some p"
  by (induction ps) auto

text \<open>The slug change of \<open>UpdatePage\<close>.\<close>

lemma change_slug_skip:
  assumes "pu_slug input = None \<or> slugify (the (pu_slug input)) = [] \<or>
      slugify (the (pu_slug input)) = page_slug page"
  shows "change_slug render now d page pageID authorID input = Some (Inr (page, []), d)"
  using assms by (auto simp: change_slug_def Let_def split: option.splits)

lemma change_slug_run:
  assumes s: "pu_slug input = Some s" "slugify s \<noteq> []" "slugify s \<noteq> page_slug page"
    and run: "change_slug render now d page pageID authorID input = Some (Inr (page1, changes), d2)"
  shows "\<exists>parent d1 ds.
      (if Contains (slugify s) (CHR ''/'')
       then ensureParentPages render now d authorID (slugify s) else (Inr None, d)) = (Inr parent, d1) \<and>
      GetAllDescendants d1 pageID = Some ds \<and>
      cascade now (page_slug page) (slugify s) ds [] d1 = (Inr changes, d2) \<and>
      page1 = page\<lparr>page_slug := slugify s, page_parent_id := parent\<rparr>"
proof -
  obtain o1 d1 where e: "(if Contains (slugify s) (CHR ''/'')
       then ensureParentPages render now d authorID (slugify s) else (Inr None, d)) = (o1, d1)"
    by (cases "if Contains (slugify s) (CHR ''/'')
       then ensureParentPages render now d authorID (slugify s) else (Inr None, d)")
  have nc: "\<not> (case GetPageBySlug d (slugify s) of Some existing \<Rightarrow> page_id existing \<noteq> pageID
        | None \<Rightarrow> False)"
    using run s by (auto simp: change_slug_def Let_def split: if_splits)
  from run s nc e have r1: "(case o1 of Inl e \<Rightarrow> Some (Inl e, d1)
      | Inr newParentID \<Rightarrow>
          (case GetAllDescendants d1 pageID of None \<Rightarrow> None
           | Some descendants \<Rightarrow>
              (case cascade now (page_slug page) (slugify s) descendants [] d1 of
                 (Inl e, d2) \<Rightarrow> Some (Inl e, d2)
               | (Inr slugChanges, d2) \<Rightarrow>
                   Some (Inr (page\<lparr>page_slug := slugify s, page_parent_id := newParentID\<rparr>,
                              slugChanges), d2))))
      = Some (Inr (page1, changes), d2)"
    by (cases o1) (simp_all add: change_slug_def Let_def)
  then obtain parent where o1: "o1 = Inr parent" by (cases o1) auto
  with r1 obtain ds where ds: "GetAllDescendants d1 pageID = Some ds"
    by (cases "GetAllDescendants d1 pageID") auto
  obtain o2 d2' where c: "cascade now (page_slug page) (slugify s) ds [] d1 = (o2, d2')"
    by (cases "cascade now (page_slug page) (slugify s) ds [] d1")
  with r1 o1 ds have "o2 = Inr changes" "d2' = d2"
    "page1 = page\<lparr>page_slug := slugify s, page_parent_id := parent\<rparr>"
    by (cases o2; simp)+
  with e o1 ds c show ?thesis by blast
qed

lemma change_slug_frame:
  assumes "change_slug render now d page pageID authorID input = Some (res, d2)"
  shows "revisions d2 = revisions d \<and> revision_seq d2 = revision_seq d \<and>
    (\<exists>new. map page_id (pages d2) = map page_id (pages d) @ new \<and>
            map page_content (pages d2) = map page_content (pages d) @ map (\<lambda>_. []) new \<and>
            page_seq d2 = page_seq d + int (length new) \<and>
            new = map (\<lambda>k. page_seq d + 1 + int k) [0..<length new])"
proof (cases "pu_slug input = None \<or> slugify (the (pu_slug input)) = [] \<or>
      slugify (the (pu_slug input)) = page_slug page")
  case True
  from change_slug_skip [OF this] assms have "d2 = d" by simp
  then show ?thesis by simp
next
  case False
  then obtain s where s: "pu_slug input = Some s" "slugify s \<noteq> []" "slugify s \<noteq> page_slug page"
    by auto
  show ?thesis
  proof (cases "case GetPageBySlug d (slugify s) of Some existing \<Rightarrow> page_id existing \<noteq> pageID
        | None \<Rightarrow> False")
    case True
    with assms s have "d2 = d" by (simp add: change_slug_def Let_def)
    then show ?thesis by simp
  next
    case nc: False
    obtain o1 d1 where e: "(if Contains (slugify s) (CHR ''/'')
         then ensureParentPages render now d authorID (slugify s) else (Inr None, d)) = (o1, d1)"
      by (cases "if Contains (slugify s) (CHR ''/'')
         then ensureParentPages render now d authorID (slugify s) else (Inr None, d)")
    have "\<exists>new. d1 = d\<lparr>pages := pages d @ new, page_seq := page_seq d + int (length new)\<rparr> \<and>
           map page_id new = map (\<lambda>k. page_seq d + 1 + int k) [0..<length new] \<and>
           (\<forall>p\<in>set new. placeholder now authorID p)"
    proof (cases "Contains (slugify s) (CHR ''/'')")
      case True
      with e show ?thesis by (auto dest: ensureParentPages_props)
    next
      case False
      with e have "d1 = d" by simp
      then show ?thesis by (intro exI [of _ "[]"]) simp
    qed
    then obtain new where new: "d1 = d\<lparr>pages := pages d @ new, page_seq := page_seq d + int (length new)\<rparr>"
      "map page_id new = map (\<lambda>k. page_seq d + 1 + int k) [0..<length new]"
      "\<forall>p\<in>set new. placeholder now authorID p" by blast
    have cont: "map page_content new = map (\<lambda>_. []) (map page_id new)"
      using new(3) by (induction new) (auto simp: placeholder_def)
    have d1: "revisions d1 = revisions d \<and> revision_seq d1 = revision_seq d \<and>
      (\<exists>new. map page_id (pages d1) = map page_id (pages d) @ new \<and>
            map page_content (pages d1) = map page_content (pages d) @ map (\<lambda>_. []) new \<and>
            page_seq d1 = page_seq d + int (length new) \<and>
            new = map (\<lambda>k. page_seq d + 1 + int k) [0..<length new])"
      using new(1,2) cont by (auto intro!: exI [of _ "map page_id new"])
    from assms s nc e have r1: "(case o1 of Inl e \<Rightarrow> Some (Inl e, d1)
      | Inr newParentID \<Rightarrow>
          (case GetAllDescendants d1 pageID of None \<Rightarrow> None
           | Some descendants \<Rightarrow>
              (case cascade now (page_slug page) (slugify s) descendants [] d1 of
                 (Inl e, d2) \<Rightarrow> Some (Inl e, d2)
               | (Inr slugChanges, d2) \<Rightarrow>
                   Some (Inr (page\<lparr>page_slug := slugify s, page_parent_id := newParentID\<rparr>,
                              slugChanges), d2))))
      = Some (res, d2)"
      by (cases o1) (simp_all add: change_slug_def Let_def)
    show ?thesis
    proof (cases o1)
      case (Inl e1)
      with r1 have "d2 = d1" by simp
      with d1 show ?thesis by simp
    next
      case (Inr parent)
      with r1 obtain ds where ds: "GetAllDescendants d1 pageID = Some ds"
        by (cases "GetAllDescendants d1 pageID") auto
      obtain o2 d2' where c: "cascade now (page_slug page) (slugify s) ds [] d1 = (o2, d2')"
        by (cases "cascade now (page_slug page) (slugify s) ds [] d1")
      with r1 Inr ds have "d2' = d2" by (cases o2) auto
      with cascade_frame [OF c] d1 show ?thesis by simp
    qed
  qed
qed

text \<open>The fields.\<close>

lemma update_fields_Inr:
  assumes "update_fields render now page1 input = Inr page2"
  shows "page_id page2 = page_id page1" "page_slug page2 = page_slug page1"
    "page_parent_id page2 = page_parent_id page1"
    "page_content page2 = (case pu_content input of None \<Rightarrow> page_content page1 | Some c \<Rightarrow> c)"
  using assms
  by (auto simp: update_fields_def Let_def split: option.splits if_splits)

text \<open>A successful update, step by step.\<close>

lemma UpdatePage_success:
  assumes "UpdatePage lower render now d pageID authorID input comment = Some (Inr res, d')"
  shows "\<exists>page page1 changes d1 page2 d3.
      GetPageByID d pageID = Some page \<and>
      change_slug render now d page pageID authorID input = Some (Inr (page1, changes), d1) \<and>
      update_fields render now page1 input = Inr page2 \<and>
      DB_UpdatePage now (save_revision now d1 page1 authorID input comment) page2 = Inr d3 \<and>
      d' = (case pu_tags input of None \<Rightarrow> d3 | Some ts \<Rightarrow> snd (SetPageTags lower d3 (page_id page2) ts)) \<and>
      res = \<lparr>result_page = page2, slug_changes = changes\<rparr>"
proof -
  from assms obtain page where page: "GetPageByID d pageID = Some page"
    by (cases "GetPageByID d pageID") (auto simp: UpdatePage_def)
  from assms page obtain o1 d1 where cs: "change_slug render now d page pageID authorID input = Some (o1, d1)"
    by (cases "change_slug render now d page pageID authorID input") (auto simp: UpdatePage_def)
  from assms page cs obtain page1 changes where o1: "o1 = Inr (page1, changes)"
    by (cases o1) (auto simp: UpdatePage_def)
  from assms page cs o1 obtain page2 where uf: "update_fields render now page1 input = Inr page2"
    by (cases "update_fields render now page1 input") (auto simp: UpdatePage_def Let_def)
  from assms page cs o1 uf obtain d3 where
    up: "DB_UpdatePage now (save_revision now d1 page1 authorID input comment) page2 = Inr d3"
    by (cases "DB_UpdatePage now (save_revision now d1 page1 authorID input comment) page2")
       (auto simp: UpdatePage_def Let_def)
  from assms page cs o1 uf up have
    "d' = (case pu_tags input of None \<Rightarrow> d3 | Some ts \<Rightarrow> snd (SetPageTags lower d3 (page_id page2) ts))"
    "res = \<lparr>result_page = page2, slug_changes = changes\<rparr>"
    by (auto simp: UpdatePage_def Let_def)
  with page cs o1 uf up show ?thesis by blast
qed

text \<open>The revisions and the content after an update that has gone through.\<close>

lemma update_revision:
  assumes ok: "UpdatePage lower render now d pageID authorID input comment = Some (Inr res, d')"
    and page: "GetPageByID d pageID = Some page"
  shows "revisions d' =
      (if pu_content input \<noteq> None \<and> the (pu_content input) \<noteq> page_content page
       then revisions d @
         [\<lparr>rev_id = revision_seq d + 1, rev_page_id = pageID, rev_content = page_content page,
           rev_author_id = authorID, rev_comment = comment, rev_created_at = now\<rparr>]
       else revisions d)"
    and "map_option page_content (GetPageByID d' pageID) =
      Some (case pu_content input of None \<Rightarrow> page_content page | Some c \<Rightarrow> c)"
proof -
  from UpdatePage_success [OF ok] page obtain page1 changes d1 page2 d3 where
    cs: "change_slug render now d page pageID authorID input = Some (Inr (page1, changes), d1)"
    and uf: "update_fields render now page1 input = Inr page2"
    and up: "DB_UpdatePage now (save_revision now d1 page1 authorID input comment) page2 = Inr d3"
    and d': "d' = (case pu_tags input of None \<Rightarrow> d3 | Some ts \<Rightarrow> snd (SetPageTags lower d3 (page_id page2) ts))"
    by auto
  let ?d2 = "save_revision now d1 page1 authorID input comment"
  have pid: "page \<in> set (pages d)" "page_id page = pageID" using GetPageByID_D [OF page] by auto
  have page1: "page_id page1 = pageID \<and> page_content page1 = page_content page"
  proof (cases "pu_slug input = None \<or> slugify (the (pu_slug input)) = [] \<or>
      slugify (the (pu_slug input)) = page_slug page")
    case True
    from change_slug_skip [OF this] cs pid show ?thesis by simp
  next
    case False
    then obtain s where "pu_slug input = Some s" "slugify s \<noteq> []" "slugify s \<noteq> page_slug page"
      by auto
    from change_slug_run [OF this cs] pid show ?thesis by auto
  qed
  from change_slug_frame [OF cs] obtain new where fr: "revisions d1 = revisions d"
    "revision_seq d1 = revision_seq d" "map page_id (pages d1) = map page_id (pages d) @ new"
    by blast
  have "pageID \<in> set (map page_id (pages d))" using pid by force
  then have in_d1: "pageID \<in> set (map page_id (pages d1))" using fr(3) by simp
  then have ex: "\<exists>q\<in>set (pages d1). page_id q = pageID" by auto
  have d2_pages: "pages ?d2 = pages d1"
    by (auto simp: save_revision_def CreateRevision_def Let_def split: option.splits)
  have d2_rev: "revisions ?d2 =
      (if pu_content input \<noteq> None \<and> the (pu_content input) \<noteq> page_content page
       then revisions d @
         [\<lparr>rev_id = revision_seq d + 1, rev_page_id = pageID, rev_content = page_content page,
           rev_author_id = authorID, rev_comment = comment, rev_created_at = now\<rparr>]
       else revisions d)"
    using ex page1 fr(1,2)
    by (auto simp: save_revision_def CreateRevision_def Let_def split: option.splits)
  have d3: "revisions d3 = revisions ?d2" using DB_UpdatePage_Inr [OF up] by simp
  have "revisions d' = revisions d3" using d' by (simp add: SetPageTags_other split: option.splits)
  with d3 d2_rev show "revisions d' =
      (if pu_content input \<noteq> None \<and> the (pu_content input) \<noteq> page_content page
       then revisions d @
         [\<lparr>rev_id = revision_seq d + 1, rev_page_id = pageID, rev_content = page_content page,
           rev_author_id = authorID, rev_comment = comment, rev_created_at = now\<rparr>]
       else revisions d)" by simp
  have p2: "page_id page2 = pageID"
    "page_content page2 = (case pu_content input of None \<Rightarrow> page_content page | Some c \<Rightarrow> c)"
    using update_fields_Inr [OF uf] page1 by (auto split: option.splits)
  let ?f = "\<lambda>q. if page_id q = page_id page2
                       then q\<lparr>page_slug := page_slug page2, page_title := page_title page2,
                              page_content := page_content page2,
                              page_content_html := page_content_html page2,
                              page_parent_id := page_parent_id page2,
                              page_is_published := page_is_published page2,
                              page_updated_at := now,
                              page_published_at := page_published_at page2\<rparr>
                       else q"
  have pages_d3: "pages d3 = map ?f (pages d1)"
    using DB_UpdatePage_Inr [OF up] d2_pages by simp
  obtain q where q: "find (\<lambda>p. page_id p = pageID) (pages d1) = Some q"
    using find_page_id_Some [OF in_d1] by blast
  then have qid: "page_id q = pageID" by (auto dest: find_Some_D)
  have "find (\<lambda>p. page_id p = pageID) (map ?f (pages d1)) =
      map_option ?f (find (\<lambda>p. page_id p = pageID) (pages d1))"
    by (rule find_map_page_id) simp
  then have "GetPageByID d3 pageID = Some (?f q)"
    using q pages_d3 by (simp add: GetPageByID_def)
  moreover have "pages d' = pages d3" using d' by (simp add: SetPageTags_other split: option.splits)
  ultimately have "GetPageByID d' pageID = Some (?f q)" by (simp add: GetPageByID_def)
  then show "map_option page_content (GetPageByID d' pageID) =
      Some (case pu_content input of None \<Rightarrow> page_content page | Some c \<Rightarrow> c)"
    using qid p2 by simp
qed

text \<open>
  Claim C3, as stated, has every update with a new content append a revision, and no
  revision hold the content of the page after the update. An update that changes the
  content of page 1 from \<open>L\<close> to \<open>M\<close> and a second one that changes it back both go
  through; afterwards the page holds \<open>L\<close>, and so do two of its three revisions. An
  update with a new content and the slug of another page is refused before the revision
  is written, and the store is as before.
\<close>

theorem update_restore_counterexample:
  "map_option (isl \<circ> fst) (UpdatePage ToLower plain_render 12 linux_db 1 7 (edit ''M'') ''first'') = Some False \<and>
   map_option (isl \<circ> fst) (UpdatePage ToLower plain_render 13 edited_db 1 7 (edit ''L'') ''back'') = Some False \<and>
   map_option page_content (GetPageByID restored_db 1) = Some ''L'' \<and>
   map rev_page_id (revisions restored_db) = [1, 2, 1, 1] \<and>
   map rev_content (revisions restored_db) = [''L'', ''U'', ''L'', ''M''] \<and>
   UpdatePage ToLower plain_render 12 linux_db 1 7
     ((edit ''M'')\<lparr>pu_slug := Some ''linux/ubuntu''\<rparr>) ''first'' = Some (Inl ErrPageExists, linux_db)"
  by code_simp

text \<open>
  Claim C3, amended: an update that goes through on a page, with a content that differs
  from the content of the page, appends exactly one revision, which holds the content
  before the change, the id of the page, the author and the comment of the call, and
  the page then holds the new content, whatever the other fields of the call; with no
  content, or the content the page has, the revisions are as before. Two such updates
  in a row append two revisions: the content before the first and the content before
  the second.
\<close>

theorem update_appends_revision:
  "(UpdatePage lower render now d pageID authorID input comment = Some (Inr res, d') \<and>
    GetPageByID d pageID = Some page \<longrightarrow>
      (case pu_content input of
         None \<Rightarrow> revisions d' = revisions d
       | Some c \<Rightarrow>
           if c \<noteq> page_content page
           then revisions d' = revisions d @
                  [\<lparr>rev_id = revision_seq d + 1, rev_page_id = pageID,
                    rev_content = page_content page, rev_author_id = authorID,
                    rev_comment = comment, rev_created_at = now\<rparr>] \<and>
                map_option page_content (GetPageByID d' pageID) = Some c
           else revisions d' = revisions d)) \<and>
   (UpdatePage lower render now1 d pageID a1 in1 c1 = Some (Inr r1, d1) \<and>
    UpdatePage lower render2 now2 d1 pageID a2 in2 c2 = Some (Inr r2, d2) \<and>
    GetPageByID d pageID = Some page \<and>
    pu_content in1 = Some x1 \<and> pu_content in2 = Some x2 \<and>
    x1 \<noteq> page_content page \<and> x2 \<noteq> x1 \<longrightarrow>
      map rev_content (revisions d2) = map rev_content (revisions d) @ [page_content page, x1] \<and>
      map_option page_content (GetPageByID d2 pageID) = Some x2)"
proof -
  have A: "case pu_content input of
         None \<Rightarrow> revisions d' = revisions d
       | Some c \<Rightarrow>
           if c \<noteq> page_content page
           then revisions d' = revisions d @
                  [\<lparr>rev_id = revision_seq d + 1, rev_page_id = pageID,
                    rev_content = page_content page, rev_author_id = authorID,
                    rev_comment = comment, rev_created_at = now\<rparr>] \<and>
                map_option page_content (GetPageByID d' pageID) = Some c
           else revisions d' = revisions d"
    if "UpdatePage lower render now d pageID authorID input comment = Some (Inr res, d')"
      "GetPageByID d pageID = Some page"
    using update_revision [OF that] by (auto split: option.splits)
  have B: "map rev_content (revisions d2) = map rev_content (revisions d) @ [page_content page, x1] \<and>
      map_option page_content (GetPageByID d2 pageID) = Some x2"
    if u1: "UpdatePage lower render now1 d pageID a1 in1 c1 = Some (Inr r1, d1)"
      and u2: "UpdatePage lower render2 now2 d1 pageID a2 in2 c2 = Some (Inr r2, d2)"
      and page: "GetPageByID d pageID = Some page"
      and x: "pu_content in1 = Some x1" "pu_content in2 = Some x2"
        "x1 \<noteq> page_content page" "x2 \<noteq> x1"
  proof -
    from update_revision [OF u1 page] x have
      1: "map rev_content (revisions d1) = map rev_content (revisions d) @ [page_content page]"
      and "map_option page_content (GetPageByID d1 pageID) = Some x1" by auto
    then obtain page' where page': "GetPageByID d1 pageID = Some page'" "page_content page' = x1"
      by auto
    from update_revision [OF u2 page'(1)] x page'(2) have
      "map rev_content (revisions d2) = map rev_content (revisions d1) @ [x1]"
      "map_option page_content (GetPageByID d2 pageID) = Some x2" by auto
    with 1 show ?thesis by simp
  qed
  from A B show ?thesis by blast
qed

theorem update_appends_revision_witness:
  "map rev_content (revisions (snd (the (UpdatePage ToLower plain_render 12 linux_db 1 7 (edit ''M'') ''first'')))) =
     [''L'', ''U'', ''L''] \<and>
   map rev_content (revisions (snd (the (UpdatePage ToLower plain_render 13
       (snd (the (UpdatePage ToLower plain_render 12 linux_db 1 7 (edit ''M'') ''first''))) 1 7 (edit ''N'') ''second'')))) =
     [''L'', ''U'', ''L'', ''M''] \<and>
   revisions (snd (the (UpdatePage ToLower plain_render 12 linux_db 1 7 (edit ''L'') ''same''))) = revisions linux_db"
proof -
  let ?U1 = "UpdatePage ToLower plain_render 12 linux_db 1 7 (edit ''M'') ''first''"
  let ?d1 = "snd (the ?U1)"
  let ?U2 = "UpdatePage ToLower plain_render 13 ?d1 1 7 (edit ''N'') ''second''"
  let ?U3 = "UpdatePage ToLower plain_render 12 linux_db 1 7 (edit ''L'') ''same''"
  let ?page = "hd (pages linux_db)"
  have p: "GetPageByID linux_db 1 = Some ?page" by code_simp
  have c: "page_content ?page = ''L''" by code_simp
  have "isl (fst (the ?U1)) = False \<and> ?U1 \<noteq> None" by code_simp
  then have u1: "?U1 = Some (Inr (projr (fst (the ?U1))), ?d1)"
    by (metis option.collapse prod.collapse sum.collapse(2))
  have "isl (fst (the ?U2)) = False \<and> ?U2 \<noteq> None" by code_simp
  then have u2: "?U2 = Some (Inr (projr (fst (the ?U2))), snd (the ?U2))"
    by (metis option.collapse prod.collapse sum.collapse(2))
  have "isl (fst (the ?U3)) = False \<and> ?U3 \<noteq> None" by code_simp
  then have u3: "?U3 = Some (Inr (projr (fst (the ?U3))), snd (the ?U3))"
    by (metis option.collapse prod.collapse sum.collapse(2))
  have r: "map rev_content (revisions linux_db) = [''L'', ''U'']" by code_simp
  have e: "pu_content (edit ''M'') = Some ''M''" "pu_content (edit ''N'') = Some ''N''"
    "pu_content (edit ''L'') = Some ''L''" by (simp_all add: edit_def)
  have ne: "''M'' \<noteq> ''L''" "''N'' \<noteq> ''M''" by simp_all
  from update_appends_revision [of ToLower plain_render 12 linux_db 1 7 "edit ''M''" "''first''"
      "projr (fst (the ?U1))" ?d1 ?page 12 7 "edit ''M''" "''first''" "projr (fst (the ?U1))" ?d1
      plain_render 13 7 "edit ''N''" "''second''" "projr (fst (the ?U2))" "snd (the ?U2)" "''M''" "''N''"]
    u1 u2 p c e ne
  have 1: "map rev_content (revisions ?d1) = [''L'', ''U'', ''L'']"
    and 2: "map rev_content (revisions (snd (the ?U2))) = [''L'', ''U'', ''L'', ''M'']"
    using r by auto
  from update_appends_revision [of ToLower plain_render 12 linux_db 1 7 "edit ''L''" "''same''"
      "projr (fst (the ?U3))" "snd (the ?U3)" ?page] u3 p c e
  have 3: "revisions (snd (the ?U3)) = revisions linux_db" by auto
  from 1 2 3 show ?thesis by simp
qed

text \<open>
  Claim C2 has the rename cascade of an update applied as a whole or not at all. The
  cascade writes row by row outside a transaction, and the title is looked at only
  after it. An update of page 1 of \<open>linux_db\<close> with a new slug, a new content and a
  blank title returns \<open>ErrInvalidTitle\<close>; the descendant has its new slug, the
  placeholder \<open>commands\<close> and a revision have been written, and the page itself has its
  old slug. On \<open>siblings_db\<close> the move of \<open>a\<close> to \<open>b\<close> stops at the second descendant,
  whose new slug is taken: the first descendant is renamed, the second is not.
\<close>

theorem update_cascade_not_atomic:
  "map_option fst (UpdatePage ToLower plain_render 12 linux_db 1 7 blank_title_move ''move'') =
     Some (Inl ErrInvalidTitle) \<and>
   map page_slug (pages linux_db) = [''linux'', ''linux/ubuntu''] \<and>
   map page_slug (pages (snd (the (UpdatePage ToLower plain_render 12 linux_db 1 7 blank_title_move ''move'')))) =
     [''linux'', ''commands/linux/ubuntu'', ''commands''] \<and>
   length (revisions linux_db) = 2 \<and>
   length (revisions (snd (the (UpdatePage ToLower plain_render 12 linux_db 1 7 blank_title_move ''move'')))) = 3 \<and>
   map_option fst (UpdatePage ToLower plain_render 12 siblings_db 1 7 (rename ''b'') ''move'') =
     Some (Inl ErrConstraint) \<and>
   map page_slug (pages (snd (the (UpdatePage ToLower plain_render 12 siblings_db 1 7 (rename ''b'') ''move'')))) =
     [''a'', ''b/x'', ''a/y'', ''b/y'']"
  by code_simp

section \<open>The rename cascade\<close>

lemma save_revision_pages: "pages (save_revision now d page a input c) = pages d"
  by (simp add: save_revision_def CreateRevision_def Let_def split: option.splits)

lemma cascade_start_props:
  "\<exists>new. cascade_start render now d a slug =
            d\<lparr>pages := pages d @ new, page_seq := page_seq d + int (length new)\<rparr> \<and>
         map page_id new = map (\<lambda>k. page_seq d + 1 + int k) [0..<length new] \<and>
         (\<forall>p\<in>set new. placeholder now a p)"
proof (cases "Contains slug (CHR ''/'')")
  case True
  obtain r d1 where e: "ensureParentPages render now d a slug = (r, d1)"
    by (cases "ensureParentPages render now d a slug")
  from ensureParentPages_props [OF e] True e show ?thesis by (simp add: cascade_start_def)
next
  case False
  then have "cascade_start render now d a slug = d" by (simp add: cascade_start_def)
  then show ?thesis by (intro exI [of _ "[]"]) simp
qed


















section \<open>Placeholder pages\<close>

text \<open>The pages that an update inserts.\<close>

lemma rename_placeholders:
  assumes run: "UpdatePage lower render now d pageID a upd comment = Some (Inr res, d3)"
    and page: "GetPageByID d pageID = Some pg"
    and s: "pu_slug upd = Some s" "slugify s \<noteq> []" "slugify s \<noteq> page_slug pg"
    and keys: "\<forall>q\<in>set (pages d). page_id q \<le> page_seq d"
    and fk: "\<forall>v\<in>set (revisions d). rev_page_id v \<le> page_seq d"
  shows "\<exists>new. pages (cascade_start render now d a (slugify s)) = pages d @ new \<and>
      map page_id (pages d3) = map page_id (pages d @ new) \<and>
      (\<forall>p\<in>set (drop (length (pages d)) (pages d3)).
          page_content p = [] \<and> revisions_of d3 (page_id p) = [])"
proof -
  let ?d1 = "cascade_start render now d a (slugify s)"
  from UpdatePage_success [OF run] page obtain page1 changes d2 page2 dw where
    cs: "change_slug render now d pg pageID a upd = Some (Inr (page1, changes), d2)"
    and uf: "update_fields render now page1 upd = Inr page2"
    and up: "DB_UpdatePage now (save_revision now d2 page1 a upd comment) page2 = Inr dw"
    and d3: "d3 = (case pu_tags upd of None \<Rightarrow> dw | Some ts \<Rightarrow> snd (SetPageTags lower dw (page_id page2) ts))"
    by auto
  from change_slug_run [OF s cs] obtain parent d1 ds where
    e: "(if Contains (slugify s) (CHR ''/'')
       then ensureParentPages render now d a (slugify s) else (Inr None, d)) = (Inr parent, d1)"
    and c: "cascade now (page_slug pg) (slugify s) ds [] d1 = (Inr changes, d2)"
    and page1: "page1 = pg\<lparr>page_slug := slugify s, page_parent_id := parent\<rparr>"
    by blast
  have d1: "d1 = ?d1" using e by (auto simp: cascade_start_def split: if_splits)
  obtain new where new: "?d1 = d\<lparr>pages := pages d @ new, page_seq := page_seq d + int (length new)\<rparr>"
    "map page_id new = map (\<lambda>k. page_seq d + 1 + int k) [0..<length new]"
    "\<forall>p\<in>set new. placeholder now a p"
    using cascade_start_props by blast
  have p1: "pages ?d1 = pages d @ new" using new(1) by simp
  have id2: "page_id page2 = pageID"
    using update_fields_Inr [OF uf] page1 GetPageByID_D [OF page] by simp
  have old_id: "pageID \<le> page_seq d" using GetPageByID_D [OF page] keys by auto
  let ?g = "\<lambda>q. if page_id q = page_id page2
                       then q\<lparr>page_slug := page_slug page2, page_title := page_title page2,
                              page_content := page_content page2,
                              page_content_html := page_content_html page2,
                              page_parent_id := page_parent_id page2,
                              page_is_published := page_is_published page2,
                              page_updated_at := now,
                              page_published_at := page_published_at page2\<rparr>
                       else q"
  have pw: "pages dw = map ?g (pages d2)"
    using DB_UpdatePage_Inr [OF up] by (simp add: save_revision_pages)
  have p3: "pages d3 = pages dw" using d3 by (simp add: SetPageTags_other split: option.splits)
  from cascade_frame [OF c] have fr: "map page_id (pages d2) = map page_id (pages ?d1)"
    "map page_content (pages d2) = map page_content (pages ?d1)" by (simp_all add: d1)
  have "map page_id (map ?g ps) = map page_id ps" for ps by (induction ps) simp_all
  then have "map page_id (pages d3) = map page_id (pages d2)" unfolding p3 pw .
  then have ids: "map page_id (pages d3) = map page_id (pages d @ new)"
    using fr(1) p1 by (simp only:)
  have len: "length (pages d2) = length (pages d @ new)"
    using fr(1) p1 by (metis length_map)
  have cont_new: "\<forall>p\<in>set new. page_content p = []" using new(3) by (simp add: placeholder_def)
  have big: "\<forall>i\<in>set (map page_id new). page_seq d < i" unfolding new(2) by auto
  have revs: "\<forall>v\<in>set (revisions d3). rev_page_id v \<le> page_seq d"
    using update_revision(1) [OF run page] fk old_id by (auto split: if_splits)
  have "page_content p = [] \<and> revisions_of d3 (page_id p) = []"
    if p: "p \<in> set (drop (length (pages d)) (pages d3))" for p
  proof -
    from p obtain q where q: "q \<in> set (drop (length (pages d)) (pages d2))" "p = ?g q"
      unfolding p3 pw by (auto simp: drop_map)
    have "map page_id (drop (length (pages d)) (pages d2)) = map page_id new"
      using fr(1) p1 by (simp add: drop_map [symmetric])
    with q(1) have "page_id q \<in> set (map page_id new)"
      by (metis image_eqI list.set_map)
    with big have b: "page_seq d < page_id q" by blast
    with old_id id2 have "page_id q \<noteq> page_id page2" by simp
    with q(2) have pq: "p = q" by simp
    have "map page_content (drop (length (pages d)) (pages d2)) = map page_content new"
      using fr(2) p1 by (simp add: drop_map [symmetric])
    with q(1) have "page_content q \<in> set (map page_content new)"
      by (metis image_eqI list.set_map)
    with cont_new have "page_content q = []" by auto
    moreover have "revisions_of d3 (page_id q) = []"
      using revs b by (fastforce simp: revisions_of_def filter_empty_conv)
    ultimately show ?thesis using pq by simp
  qed
  with p1 ids show ?thesis by blast
qed

text \<open>
  Claim C10: the pages that \<open>ensureParentPages\<close> inserts have no content and no
  revision, in a store whose revisions belong to pages inserted before; after a
  successful create the placeholder parents have no revision and the created page has
  its initial one; after a successful update with a new slug the pages that have been
  inserted, the placeholder parents of the new slug, have no content and no revision.
\<close>

theorem placeholders_have_no_revision:
  "(ensureParentPages render now d a slug = (r, d') \<and>
    (\<forall>v\<in>set (revisions d). rev_page_id v \<le> page_seq d) \<longrightarrow>
      revisions d' = revisions d \<and>
      (\<exists>new. pages d' = pages d @ new \<and>
             (\<forall>p\<in>set new. page_content p = [] \<and> revisions_of d' (page_id p) = []))) \<and>
   (CreatePage lower render now d a input = (Inr page, d2) \<and>
    (\<forall>v\<in>set (revisions d). rev_page_id v \<le> page_seq d) \<longrightarrow>
      (\<exists>new. pages d2 = pages d @ new @ [page] \<and>
             (\<forall>p\<in>set new. page_content p = [] \<and> revisions_of d2 (page_id p) = []) \<and>
             revisions_of d2 (page_id page) =
               [\<lparr>rev_id = revision_seq d + 1, rev_page_id = page_id page,
                 rev_content = pc_content input, rev_author_id = a,
                 rev_comment = ''Initial version'', rev_created_at = now\<rparr>])) \<and>
   (UpdatePage lower render now d pageID a upd comment = Some (Inr res, dr) \<and>
    GetPageByID d pageID = Some pg \<and>
    pu_slug upd = Some s \<and> slugify s \<noteq> [] \<and> slugify s \<noteq> page_slug pg \<and>
    (\<forall>q\<in>set (pages d). page_id q \<le> page_seq d) \<and>
    (\<forall>v\<in>set (revisions d). rev_page_id v \<le> page_seq d) \<longrightarrow>
      (\<exists>new. pages (cascade_start render now d a (slugify s)) = pages d @ new \<and>
             map page_id (pages dr) = map page_id (pages d @ new) \<and>
             (\<forall>p\<in>set (drop (length (pages d)) (pages dr)).
                 page_content p = [] \<and> revisions_of dr (page_id p) = [])))"
proof (intro conjI impI)
  assume "ensureParentPages render now d a slug = (r, d') \<and>
    (\<forall>v\<in>set (revisions d). rev_page_id v \<le> page_seq d)"
  then have run: "ensureParentPages render now d a slug = (r, d')"
    and fk: "\<forall>v\<in>set (revisions d). rev_page_id v \<le> page_seq d" by auto
  from ensureParentPages_props [OF run] obtain new where new:
    "d' = d\<lparr>pages := pages d @ new, page_seq := page_seq d + int (length new)\<rparr>"
    "map page_id new = map (\<lambda>k. page_seq d + 1 + int k) [0..<length new]"
    "\<forall>p\<in>set new. placeholder now a p" by blast
  show "revisions d' = revisions d" using new(1) by simp
  have ids: "\<forall>p\<in>set new. page_id p > page_seq d"
  proof
    fix p assume "p \<in> set new"
    then have "page_id p \<in> set (map page_id new)" by simp
    then show "page_id p > page_seq d" unfolding new(2) by auto
  qed
  have "\<forall>p\<in>set new. page_content p = [] \<and> revisions_of d' (page_id p) = []"
  proof
    fix p assume p: "p \<in> set new"
    with new(3) have "page_content p = []" by (simp add: placeholder_def)
    moreover have "revisions_of d' (page_id p) = []"
      using ids p fk new(1) by (fastforce simp: revisions_of_def filter_empty_conv)
    ultimately show "page_content p = [] \<and> revisions_of d' (page_id p) = []" ..
  qed
  moreover have "pages d' = pages d @ new" using new(1) by simp
  ultimately show "\<exists>new. pages d' = pages d @ new \<and>
      (\<forall>p\<in>set new. page_content p = [] \<and> revisions_of d' (page_id p) = [])" by blast
next
  assume "CreatePage lower render now d a input = (Inr page, d2) \<and>
    (\<forall>v\<in>set (revisions d). rev_page_id v \<le> page_seq d)"
  then have ok: "CreatePage lower render now d a input = (Inr page, d2)"
    and fk: "\<forall>v\<in>set (revisions d). rev_page_id v \<le> page_seq d" by auto
  from CreatePage_success [OF ok] obtain new html parentID where new:
    "pages d2 = pages d @ new @ [page]" "\<forall>p\<in>set new. placeholder now a p"
    "map page_id new = map (\<lambda>k. page_seq d + 1 + int k) [0..<length new]"
    and page: "page = \<lparr>page_id = page_seq d + 1 + int (length new), page_slug = create_slug input,
                    page_title = TrimSpace (pc_title input), page_content = pc_content input,
                    page_content_html = html, page_author_id = a, page_parent_id = parentID,
                    page_is_published = True, page_created_at = now, page_updated_at = now,
                    page_published_at = Some now\<rparr>"
    and rev: "revisions d2 = revisions d @
              [\<lparr>rev_id = revision_seq d + 1, rev_page_id = page_id page,
                rev_content = pc_content input, rev_author_id = a,
                rev_comment = ''Initial version'', rev_created_at = now\<rparr>]"
    by blast
  have pid: "page_id page = page_seq d + 1 + int (length new)" by (subst page) simp
  have ids: "\<forall>p\<in>set new. page_id p > page_seq d \<and> page_id p < page_id page"
  proof
    fix p assume "p \<in> set new"
    then have "page_id p \<in> set (map page_id new)" by simp
    then show "page_id p > page_seq d \<and> page_id p < page_id page" unfolding new(3) pid by auto
  qed
  have old: "filter (\<lambda>v. rev_page_id v = i) (revisions d) = []" if "i > page_seq d" for i
    using fk that by (fastforce simp: filter_empty_conv)
  have "\<forall>p\<in>set new. page_content p = [] \<and> revisions_of d2 (page_id p) = []"
  proof
    fix p assume p: "p \<in> set new"
    with new(2) have "page_content p = []" by (simp add: placeholder_def)
    moreover have "revisions_of d2 (page_id p) = []"
      using ids p old [of "page_id p"] by (auto simp: revisions_of_def rev)
    ultimately show "page_content p = [] \<and> revisions_of d2 (page_id p) = []" ..
  qed
  moreover have "revisions_of d2 (page_id page) =
      [\<lparr>rev_id = revision_seq d + 1, rev_page_id = page_id page,
        rev_content = pc_content input, rev_author_id = a,
        rev_comment = ''Initial version'', rev_created_at = now\<rparr>]"
    using old [of "page_id page"] pid by (simp add: revisions_of_def rev)
  ultimately show "\<exists>new. pages d2 = pages d @ new @ [page] \<and>
      (\<forall>p\<in>set new. page_content p = [] \<and> revisions_of d2 (page_id p) = []) \<and>
      revisions_of d2 (page_id page) =
        [\<lparr>rev_id = revision_seq d + 1, rev_page_id = page_id page,
          rev_content = pc_content input, rev_author_id = a,
          rev_comment = ''Initial version'', rev_created_at = now\<rparr>]"
    using new(1) by blast
next
  assume "UpdatePage lower render now d pageID a upd comment = Some (Inr res, dr) \<and>
    GetPageByID d pageID = Some pg \<and>
    pu_slug upd = Some s \<and> slugify s \<noteq> [] \<and> slugify s \<noteq> page_slug pg \<and>
    (\<forall>q\<in>set (pages d). page_id q \<le> page_seq d) \<and>
    (\<forall>v\<in>set (revisions d). rev_page_id v \<le> page_seq d)"
  then have "UpdatePage lower render now d pageID a upd comment = Some (Inr res, dr)"
    "GetPageByID d pageID = Some pg"
    "pu_slug upd = Some s" "slugify s \<noteq> []" "slugify s \<noteq> page_slug pg"
    "\<forall>q\<in>set (pages d). page_id q \<le> page_seq d"
    "\<forall>v\<in>set (revisions d). rev_page_id v \<le> page_seq d" by blast+
  then show "\<exists>new. pages (cascade_start render now d a (slugify s)) = pages d @ new \<and>
      map page_id (pages dr) = map page_id (pages d @ new) \<and>
      (\<forall>p\<in>set (drop (length (pages d)) (pages dr)).
          page_content p = [] \<and> revisions_of dr (page_id p) = [])"
    by (rule rename_placeholders)
qed

theorem placeholders_have_no_revision_witness:
  "revisions (snd (ensureParentPages plain_render 12 linux_db 7 ''a/b/c'')) = revisions linux_db \<and>
   map page_slug (pages (snd (ensureParentPages plain_render 12 linux_db 7 ''a/b/c''))) =
     [''linux'', ''linux/ubuntu'', ''a'', ''a/b''] \<and>
   revisions_of (snd (ensureParentPages plain_render 12 linux_db 7 ''a/b/c'')) 3 = [] \<and>
   revisions_of (snd (ensureParentPages plain_render 12 linux_db 7 ''a/b/c'')) 4 = [] \<and>
   map rev_comment
     (revisions_of (snd (CreatePage ToLower plain_render 12 linux_db 7 (new_page ''a/b'' ''B'' ''x''))) 4) =
     [''Initial version''] \<and>
   revisions_of (snd (CreatePage ToLower plain_render 12 linux_db 7 (new_page ''a/b'' ''B'' ''x''))) 3 = [] \<and>
   map page_slug
     (pages (snd (the (UpdatePage ToLower plain_render 12 linux_db 1 7 (rename ''commands/linux'') ''move'')))) =
     [''commands/linux'', ''commands/linux/ubuntu'', ''commands''] \<and>
   revisions_of
     (snd (the (UpdatePage ToLower plain_render 12 linux_db 1 7 (rename ''commands/linux'') ''move''))) 3 = []"
proof -
  let ?U = "UpdatePage ToLower plain_render 12 linux_db 1 7 (rename ''commands/linux'') ''move''"
  let ?X = "ensureParentPages plain_render 12 linux_db 7 ''a/b/c''"
  let ?Y = "CreatePage ToLower plain_render 12 linux_db 7 (new_page ''a/b'' ''B'' ''x'')"
  have fk: "\<forall>v\<in>set (revisions linux_db). rev_page_id v \<le> page_seq linux_db" by code_simp
  have x: "?X = (fst ?X, snd ?X)" by simp
  from placeholders_have_no_revision [of plain_render 12 linux_db 7 "''a/b/c''" "fst ?X" "snd ?X"] x fk
  obtain new where 1: "revisions (snd ?X) = revisions linux_db"
    and 2: "pages (snd ?X) = pages linux_db @ new"
    and 3: "\<forall>p\<in>set new. page_content p = [] \<and> revisions_of (snd ?X) (page_id p) = []"
    by blast
  have 4: "map page_id (pages (snd ?X)) = map page_id (pages linux_db) @ [3, 4]" by code_simp
  from 2 4 have "map page_id new = [3, 4]" by simp
  then have "3 \<in> page_id ` set new" "4 \<in> page_id ` set new"
    by (metis list.set_intros(1) set_map, metis list.set_intros(1,2) set_map)
  with 3 have 5: "revisions_of (snd ?X) 3 = []" "revisions_of (snd ?X) 4 = []" by auto
  have 6: "map page_slug (pages (snd ?X)) = [''linux'', ''linux/ubuntu'', ''a'', ''a/b'']"
    by code_simp
  have "fst ?Y = Inr (projr (fst ?Y))" by code_simp
  then have y: "?Y = (Inr (projr (fst ?Y)), snd ?Y)" by (metis prod.collapse)
  from placeholders_have_no_revision [of plain_render 12 linux_db 7 "''a/b/c''" "fst ?X" "snd ?X"
      ToLower "new_page ''a/b'' ''B'' ''x''" "projr (fst ?Y)" "snd ?Y"] y fk
  obtain new2 where 7: "pages (snd ?Y) = pages linux_db @ new2 @ [projr (fst ?Y)]"
    and 8: "\<forall>p\<in>set new2. page_content p = [] \<and> revisions_of (snd ?Y) (page_id p) = []"
    and 9: "revisions_of (snd ?Y) (page_id (projr (fst ?Y))) =
               [\<lparr>rev_id = revision_seq linux_db + 1, rev_page_id = page_id (projr (fst ?Y)),
                 rev_content = pc_content (new_page ''a/b'' ''B'' ''x''), rev_author_id = 7,
                 rev_comment = ''Initial version'', rev_created_at = 12\<rparr>]"
    by blast
  have 10: "page_id (projr (fst ?Y)) = 4" by code_simp
  have 11: "map page_id (pages (snd ?Y)) = map page_id (pages linux_db) @ [3] @ [page_id (projr (fst ?Y))]"
    by code_simp
  from 7 11 have "map page_id new2 = [3]" by simp
  then have "3 \<in> page_id ` set new2" by (metis list.set_intros(1) set_map)
  with 8 have 12: "revisions_of (snd ?Y) 3 = []" by auto
  from 9 10 have 13: "map rev_comment (revisions_of (snd ?Y) 4) = [''Initial version'']" by simp
  have "isl (fst (the ?U)) = False \<and> ?U \<noteq> None" by code_simp
  then have u: "?U = Some (Inr (projr (fst (the ?U))), snd (the ?U))"
    by (metis option.collapse prod.collapse sum.collapse(2))
  have h: "GetPageByID linux_db 1 = Some (hd (pages linux_db))"
    "pu_slug (rename ''commands/linux'') = Some ''commands/linux''"
    "slugify ''commands/linux'' \<noteq> []"
    "slugify ''commands/linux'' \<noteq> page_slug (hd (pages linux_db))"
    "\<forall>q\<in>set (pages linux_db). page_id q \<le> page_seq linux_db"
    by code_simp+
  from placeholders_have_no_revision [where lower = ToLower and render = plain_render and now = 12 and d = linux_db
      and a = 7 and pageID = 1 and upd = "rename ''commands/linux''" and comment = "''move''"
      and res = "projr (fst (the ?U))" and dr = "snd (the ?U)" and pg = "hd (pages linux_db)"
      and s = "''commands/linux''"] u h fk
  have 14: "\<forall>p\<in>set (drop (length (pages linux_db)) (pages (snd (the ?U)))).
      page_content p = [] \<and> revisions_of (snd (the ?U)) (page_id p) = []" by blast
  have 15: "length (pages linux_db) = 2" by code_simp
  have 16: "map page_id (drop 2 (pages (snd (the ?U)))) = [3]" by code_simp
  then have "3 \<in> page_id ` set (drop 2 (pages (snd (the ?U))))" by (metis list.set_intros(1) set_map)
  with 14 15 have 17: "revisions_of (snd (the ?U)) 3 = []" by auto
  have 18: "map page_slug (pages (snd (the ?U))) =
      [''commands/linux'', ''commands/linux/ubuntu'', ''commands'']" by code_simp
  show ?thesis using 1 5 6 12 13 17 18 by simp
qed

end
